theory Spec2Isabelle
  imports Main "HOL-Library.AList" "HOL-Library.Char_ord" "HOL-Library.List_Lexorder"
begin

section \<open>Go maps as association lists\<close>

text \<open>
  The traversal engine of depstat works on \<^verbatim>\<open>map[string][]string\<close> (the dependency
  graph), \<^verbatim>\<open>map[string]bool\<close> (node sets) and \<^verbatim>\<open>map[string]Chain\<close> (the memo table).
  A Go map is modelled as an association list: a lookup goes through \<^const>\<open>map_of\<close>, an
  assignment \<^verbatim>\<open>m[k] = v\<close> through \<^const>\<open>AList.update\<close>, and reading a missing key yields
  the zero value of the value type (\<^verbatim>\<open>false\<close>, \<^verbatim>\<open>nil\<close>, \<^verbatim>\<open>0\<close>), as in Go. Node
  identifiers are Go strings, compared bytewise; \<^verbatim>\<open>sort.Strings\<close> is \<^const>\<open>sort\<close> on
  the lexicographic order of \<^typ>\<open>string\<close>.
\<close>

type_synonym node = string
type_synonym graph = "(node \<times> node list) list"
type_synonym boolmap = "(node \<times> bool) list"

definition lookupB :: "('k \<times> bool) list \<Rightarrow> 'k \<Rightarrow> bool" where
  "lookupB m k = (case map_of m k of Some b \<Rightarrow> b | None \<Rightarrow> False)"

definition lookupL :: "('k \<times> 'v list) list \<Rightarrow> 'k \<Rightarrow> 'v list" where
  "lookupL m k = (case map_of m k of Some xs \<Rightarrow> xs | None \<Rightarrow> [])"

text \<open>The set a \<^verbatim>\<open>map[string]bool\<close> stands for: the keys that read as true.\<close>

definition members :: "('k \<times> bool) list \<Rightarrow> 'k set" where
  "members m = {k. lookupB m k}"

lemma lookupB_update: "lookupB (AList.update k b m) = (lookupB m)(k := b)"
  by (rule ext) (simp add: lookupB_def update_conv')

lemma lookupB_Nil: "lookupB [] k = False"
  by (simp add: lookupB_def)

lemma lookupL_update: "lookupL (AList.update k xs m) = (lookupL m)(k := xs)"
  by (rule ext) (simp add: lookupL_def update_conv')

lemma lookupL_Nil: "lookupL [] k = []"
  by (simp add: lookupL_def)

lemma lookupL_notin_keys: "k \<notin> fst ` set m \<Longrightarrow> lookupL m k = []"
  using map_of_eq_None_iff[of m k] by (simp add: lookupL_def)

lemma lookupL_in_values: "set (lookupL m k) \<subseteq> \<Union> (set ` snd ` set m)"
proof (cases "map_of m k")
  case None
  then show ?thesis by (simp add: lookupL_def)
next
  case (Some xs)
  then have "(k, xs) \<in> set m" by (rule map_of_SomeD)
  then have "set xs \<in> set ` snd ` set m" by force
  with Some show ?thesis by (auto simp: lookupL_def)
qed

lemma members_singleton: "members [(t, True)] = {t}"
  by (auto simp: members_def lookupB_def)

section \<open>findAllPaths (cmd/why.go)\<close>

text \<open>
  \<^verbatim>\<open>findAllPaths\<close> is a recursive depth-first search that mutates two objects shared by
  all its calls: the \<^verbatim>\<open>visited\<close> map and the output slice \<^verbatim>\<open>*out\<close>. The model passes
  both in and returns them updated. The package variable \<^verbatim>\<open>whyMaxDepth\<close> is the first
  parameter. The \<^verbatim>\<open>for _, next := range graph[start]\<close> loop is the second function of
  the mutual recursion, \<open>findAllPaths_range\<close>, which carries the rest of the successor
  list; the deferred \<^verbatim>\<open>visited[start] = false\<close> is applied to whatever the loop returns,
  also on its early return. \<^verbatim>\<open>currentPath\<close> is a Go slice; the callee only appends at
  index \<^verbatim>\<open>len(currentPath)\<close> and the emitted path is copied, so a list value is exact.
\<close>

function (domintros) findAllPaths :: "int \<Rightarrow> node \<Rightarrow> node \<Rightarrow> graph \<Rightarrow> boolmap \<Rightarrow> node list \<Rightarrow> boolmap \<Rightarrow> node list list \<Rightarrow> int \<Rightarrow> boolmap \<times> node list list"
and findAllPaths_range :: "int \<Rightarrow> node list \<Rightarrow> node \<Rightarrow> graph \<Rightarrow> boolmap \<Rightarrow> node list \<Rightarrow> boolmap \<Rightarrow> node list list \<Rightarrow> int \<Rightarrow> boolmap \<times> node list list"
where
  "findAllPaths whyMaxDepth start target graph reachable currentPath visited out maxPaths =
     (if start = target then (visited, out @ [currentPath @ [start]])
      else if maxPaths > 0 \<and> int (length out) \<ge> maxPaths then (visited, out)
      else if \<not> lookupB reachable start then (visited, out)
      else if whyMaxDepth > 0 \<and> int (length currentPath) \<ge> whyMaxDepth then (visited, out)
      else if lookupB visited start then (visited, out)
      else (case findAllPaths_range whyMaxDepth (lookupL graph start) target graph reachable
                   (currentPath @ [start]) (AList.update start True visited) out maxPaths of
              (visited', out') \<Rightarrow> (AList.update start False visited', out')))"
| "findAllPaths_range whyMaxDepth [] target graph reachable currentPath visited out maxPaths =
     (visited, out)"
| "findAllPaths_range whyMaxDepth (next # rest) target graph reachable currentPath visited out maxPaths =
     (if \<not> lookupB reachable next
      then findAllPaths_range whyMaxDepth rest target graph reachable currentPath visited out maxPaths
      else (case findAllPaths whyMaxDepth next target graph reachable currentPath visited out maxPaths of
              (visited', out') \<Rightarrow>
                if maxPaths > 0 \<and> int (length out') \<ge> maxPaths then (visited', out')
                else findAllPaths_range whyMaxDepth rest target graph reachable currentPath visited' out' maxPaths))"
  by pat_completeness auto

text \<open>
  Termination. The recursion descends only into a node that is not marked in \<^verbatim>\<open>visited\<close>
  and marks it first, so the number of unmarked keys of the graph decreases; a node that
  is no key of the graph has no successors. The loop continues with the map its callee
  returned, so the proof needs that a call leaves every lookup in \<^verbatim>\<open>visited\<close> as it
  found it (the deferred reset), which is proved on the domain of the function first.
\<close>

definition unvisited :: "graph \<Rightarrow> boolmap \<Rightarrow> nat" where
  "unvisited g v = card {x \<in> fst ` set g. \<not> lookupB v x}"

lemma unvisited_cong: "lookupB v' = lookupB v \<Longrightarrow> unvisited g v' = unvisited g v"
  by (simp add: unvisited_def)

lemma unvisited_mark:
  assumes "s \<in> fst ` set g" and "\<not> lookupB v s"
  shows "unvisited g (AList.update s True v) < unvisited g v"
proof -
  have "{x \<in> fst ` set g. \<not> lookupB (AList.update s True v) x} \<subset> {x \<in> fst ` set g. \<not> lookupB v x}"
    using assms by (auto simp: lookupB_update)
  moreover have "finite {x \<in> fst ` set g. \<not> lookupB v x}" by simp
  ultimately show ?thesis unfolding unvisited_def by (rule psubset_card_mono[rotated])
qed

lemma findAllPaths_visited_partial:
  "findAllPaths_findAllPaths_range_dom (Inl (d, s, t, g, r, cp, v, out, m)) \<Longrightarrow>
     lookupB (fst (findAllPaths d s t g r cp v out m)) = lookupB v"
  "findAllPaths_findAllPaths_range_dom (Inr (d, ns, t, g, r, cp, v, out, m)) \<Longrightarrow>
     lookupB (fst (findAllPaths_range d ns t g r cp v out m)) = lookupB v"
proof (induct d s t g r cp v out m and d ns t g r cp v out m rule: findAllPaths_findAllPaths_range.pinduct)
  case (1 d s t g r cp v out m)
  then show ?case
    by (auto simp: findAllPaths.psimps lookupB_update fun_eq_iff split: prod.splits)
next
  case (2 d t g r cp v out m)
  then show ?case by (simp add: findAllPaths_range.psimps)
next
  case (3 d n rest t g r cp v out m)
  then show ?case
    by (auto simp: findAllPaths_range.psimps split: prod.splits)
qed

definition findAllPaths_measure ::
  "(int \<times> node \<times> node \<times> graph \<times> boolmap \<times> node list \<times> boolmap \<times> node list list \<times> int) +
   (int \<times> node list \<times> node \<times> graph \<times> boolmap \<times> node list \<times> boolmap \<times> node list list \<times> int)
   \<Rightarrow> nat \<times> nat \<times> nat" where
  "findAllPaths_measure x =
     (case x of
        Inl (d, s, t, g, r, cp, v, out, m) \<Rightarrow> (unvisited g v, 1, 0)
      | Inr (d, ns, t, g, r, cp, v, out, m) \<Rightarrow>
          (if ns = [] then (0, 0, 0) else (unvisited g v, 2, length ns)))"

termination findAllPaths
proof (relation "inv_image (less_than <*lex*> less_than <*lex*> less_than) findAllPaths_measure", goal_cases)
  case 1
  show ?case by auto
next
  case (2 d s t g r cp v out m)
  show ?case
  proof (cases "lookupL g s = []")
    case True
    then show ?thesis by (auto simp: findAllPaths_measure_def)
  next
    case False
    then have "s \<in> fst ` set g" using lookupL_notin_keys by metis
    with 2 have "unvisited g (AList.update s True v) < unvisited g v"
      by (simp add: unvisited_mark)
    then show ?thesis by (auto simp: findAllPaths_measure_def)
  qed
next
  case (3 d n rest t g r cp v out m)
  then show ?case by (auto simp: findAllPaths_measure_def)
next
  case (4 d n rest t g r cp v out m)
  then show ?case by (auto simp: findAllPaths_measure_def)
next
  case (5 d n rest t g r cp v out m x y)
  have "lookupB x = lookupB v"
    using 5 findAllPaths_visited_partial(1)[of d n t g r cp v out m] by (metis fst_conv)
  then have "unvisited g x = unvisited g v" by (rule unvisited_cong)
  then show ?case by (auto simp: findAllPaths_measure_def)
qed

declare findAllPaths.simps [simp del] findAllPaths_range.simps [simp del]

section \<open>computeReachableToTarget (cmd/why.go)\<close>

text \<open>
  The function first builds the reverse adjacency list, two nested \<^verbatim>\<open>range\<close> loops
  (\<open>reverse_entries\<close> over the entries of the graph, \<open>reverse_tos\<close> over one successor
  list), and then runs a breadth-first search backwards from the target: \<open>bfs_queue\<close> is
  the \<^verbatim>\<open>for len(queue) > 0\<close> loop and \<open>bfs_prevs\<close> the loop over \<^verbatim>\<open>reverse[cur]\<close>. Go
  leaves the iteration order of a map open; the model iterates in the order of the
  association list, so a statement for every list with distinct keys covers every order.
\<close>

fun reverse_tos :: "node \<Rightarrow> node list \<Rightarrow> graph \<Rightarrow> graph" where
  "reverse_tos from [] reverse = reverse"
| "reverse_tos from (to # tos) reverse =
     reverse_tos from tos (AList.update to (lookupL reverse to @ [from]) reverse)"

fun reverse_entries :: "graph \<Rightarrow> graph \<Rightarrow> graph" where
  "reverse_entries [] reverse = reverse"
| "reverse_entries ((from, tos) # rest) reverse = reverse_entries rest (reverse_tos from tos reverse)"

fun bfs_prevs :: "node list \<Rightarrow> boolmap \<Rightarrow> node list \<Rightarrow> boolmap \<times> node list" where
  "bfs_prevs [] reachable queue = (reachable, queue)"
| "bfs_prevs (prev # prevs) reachable queue =
     (if \<not> lookupB reachable prev
      then bfs_prevs prevs (AList.update prev True reachable) (queue @ [prev])
      else bfs_prevs prevs reachable queue)"

definition unmarked :: "graph \<Rightarrow> boolmap \<Rightarrow> nat" where
  "unmarked reverse reachable = card {x \<in> \<Union> (set ` snd ` set reverse). \<not> lookupB reachable x}"

lemma bfs_prevs_members:
  "bfs_prevs prevs r q = (r', q') \<Longrightarrow> members r' = members r \<union> set prevs"
  by (induction prevs arbitrary: r q) (auto simp: members_def lookupB_update split: if_splits)

lemma bfs_prevs_queue:
  "bfs_prevs prevs r q = (r', q') \<Longrightarrow> \<exists>news. q' = q @ news \<and> set news = set prevs - members r"
proof (induction prevs arbitrary: r q)
  case Nil
  then show ?case by simp
next
  case (Cons p ps)
  show ?case
  proof (cases "lookupB r p")
    case True
    with Cons.prems have "bfs_prevs ps r q = (r', q')" by simp
    from Cons.IH[OF this] True show ?thesis by (auto simp: members_def)
  next
    case False
    with Cons.prems have "bfs_prevs ps (AList.update p True r) (q @ [p]) = (r', q')" by simp
    from Cons.IH[OF this] obtain news where
      "q' = (q @ [p]) @ news" "set news = set ps - members (AList.update p True r)" by blast
    with False show ?thesis
      by (intro exI[of _ "p # news"]) (auto simp: members_def lookupB_update)
  qed
qed

lemma bfs_prevs_all_marked:
  "set prevs \<subseteq> members r \<Longrightarrow> bfs_prevs prevs r q = (r, q)"
  by (induction prevs arbitrary: r q) (auto simp: members_def)

lemma unmarked_less:
  assumes "members r \<subseteq> members r'" "x \<in> \<Union> (set ` snd ` set reverse)" "x \<in> members r'" "x \<notin> members r"
  shows "unmarked reverse r' < unmarked reverse r"
proof -
  have "{x \<in> \<Union> (set ` snd ` set reverse). \<not> lookupB r' x} \<subset> {x \<in> \<Union> (set ` snd ` set reverse). \<not> lookupB r x}"
    using assms by (auto simp: members_def)
  moreover have "finite {x \<in> \<Union> (set ` snd ` set reverse). \<not> lookupB r x}" by simp
  ultimately show ?thesis unfolding unmarked_def by (rule psubset_card_mono[rotated])
qed

text \<open>
  Termination of the queue loop: an iteration either marks a node that occurs in the
  reverse adjacency list and was unmarked, or it marks nothing and the queue gets shorter.
\<close>

function bfs_queue :: "graph \<Rightarrow> boolmap \<Rightarrow> node list \<Rightarrow> boolmap" where
  "bfs_queue reverse reachable [] = reachable"
| "bfs_queue reverse reachable (cur # queue) =
     (case bfs_prevs (lookupL reverse cur) reachable queue of
        (reachable', queue') \<Rightarrow> bfs_queue reverse reachable' queue')"
  by pat_completeness auto

termination bfs_queue
proof (relation "inv_image (less_than <*lex*> less_than) (\<lambda>(reverse, reachable, queue). (unmarked reverse reachable, length queue))",
    goal_cases)
  case 1
  show ?case by auto
next
  case (2 reverse reachable cur queue r' q')
  then have b: "bfs_prevs (lookupL reverse cur) reachable queue = (r', q')" by simp
  show ?case
  proof (cases "set (lookupL reverse cur) \<subseteq> members reachable")
    case True
    with b have "r' = reachable" "q' = queue" by (simp_all add: bfs_prevs_all_marked)
    then show ?thesis by simp
  next
    case False
    then obtain x where x: "x \<in> set (lookupL reverse cur)" "x \<notin> members reachable" by blast
    from bfs_prevs_members[OF b] x have "members reachable \<subseteq> members r'" "x \<in> members r'" by auto
    moreover have "x \<in> \<Union> (set ` snd ` set reverse)"
      using lookupL_in_values[of reverse cur] x(1) by (rule subsetD)
    ultimately have "unmarked reverse r' < unmarked reverse reachable"
      using x(2) by (intro unmarked_less)
    then show ?thesis by simp
  qed
qed

definition computeReachableToTarget :: "node \<Rightarrow> graph \<Rightarrow> boolmap" where
  "computeReachableToTarget target graph =
     bfs_queue (reverse_entries graph []) [(target, True)] [target]"

declare bfs_queue.simps [simp del]

section \<open>getLongestChain (cmd/stats.go)\<close>

text \<open>
  \<^verbatim>\<open>getLongestChain\<close> returns a chain and mutates the memo table \<^verbatim>\<open>longestChains\<close>; the
  model returns both. The loop over \<^verbatim>\<open>deps\<close> is \<open>getLongestChain_range\<close>, which carries
  the running \<^verbatim>\<open>longestDepChain\<close>. A \<^verbatim>\<open>nil\<close> chain is the empty list.
\<close>

type_synonym Chain = "node list"
type_synonym chainmap = "(node \<times> Chain) list"

text \<open>
  Modelled from the spec: \<^verbatim>\<open>contains\<close> is a helper of the package that is defined in
  another file; the specification describes its use as the test whether the node already
  appears in the chain of ancestors. It is a linear search for an equal string.
\<close>

fun contains :: "string list \<Rightarrow> string \<Rightarrow> bool" where
  "contains [] e = False"
| "contains (a # s) e = (if a = e then True else contains s e)"

function (domintros) getLongestChain :: "node \<Rightarrow> graph \<Rightarrow> Chain \<Rightarrow> chainmap \<Rightarrow> Chain \<times> chainmap"
and getLongestChain_range :: "node list \<Rightarrow> graph \<Rightarrow> Chain \<Rightarrow> chainmap \<Rightarrow> Chain \<Rightarrow> Chain \<times> chainmap"
where
  "getLongestChain currentDep graph currentChain longestChains =
     (case map_of longestChains currentDep of
        Some longestChain \<Rightarrow> (longestChain, longestChains)
      | None \<Rightarrow>
          if length (lookupL graph currentDep) = 0
          then ([currentDep], AList.update currentDep [currentDep] longestChains)
          else if contains currentChain currentDep then ([], longestChains)
          else (case getLongestChain_range (lookupL graph currentDep) graph
                       (currentChain @ [currentDep]) longestChains [] of
                  (longestDepChain, longestChains') \<Rightarrow>
                    (currentDep # longestDepChain,
                     AList.update currentDep (currentDep # longestDepChain) longestChains')))"
| "getLongestChain_range [] graph currentChain longestChains longestDepChain =
     (longestDepChain, longestChains)"
| "getLongestChain_range (dep # rest) graph currentChain longestChains longestDepChain =
     (case getLongestChain dep graph currentChain longestChains of
        (depChain, longestChains') \<Rightarrow>
          getLongestChain_range rest graph currentChain longestChains'
            (if length depChain > length longestDepChain then depChain else longestDepChain))"
  by pat_completeness auto

lemma contains_iff: "contains xs x \<longleftrightarrow> x \<in> set xs"
  by (induction xs) auto

text \<open>
  Termination: the function descends only below a node that has successors, hence is a
  key of the graph, and that is not yet in \<^verbatim>\<open>currentChain\<close>; the number of keys outside
  the chain decreases. The memo table plays no part in it.
\<close>

definition getLongestChain_measure ::
  "(node \<times> graph \<times> Chain \<times> chainmap) + (node list \<times> graph \<times> Chain \<times> chainmap \<times> Chain)
   \<Rightarrow> nat \<times> nat \<times> nat" where
  "getLongestChain_measure x =
     (case x of
        Inl (n, g, c, m) \<Rightarrow> (card (fst ` set g - set c), 0, 0)
      | Inr (ns, g, c, m, b) \<Rightarrow> (card (fst ` set g - set c), 1, length ns))"

termination getLongestChain
proof (relation "inv_image (less_than <*lex*> less_than <*lex*> less_than) getLongestChain_measure", goal_cases)
  case 1
  show ?case by auto
next
  case (2 n g c m)
  then have "lookupL g n \<noteq> []" by simp
  then have "n \<in> fst ` set g" using lookupL_notin_keys by metis
  moreover from 2 have "n \<notin> set c" by (simp add: contains_iff)
  ultimately have "fst ` set g - set (c @ [n]) \<subset> fst ` set g - set c" by auto
  then have "card (fst ` set g - set (c @ [n])) < card (fst ` set g - set c)"
    by (intro psubset_card_mono) auto
  then show ?case by (simp add: getLongestChain_measure_def)
next
  case (3 dep rest g c m b)
  show ?case by (simp add: getLongestChain_measure_def)
next
  case (4 dep rest g c m b x y)
  show ?case by (simp add: getLongestChain_measure_def)
qed

declare getLongestChain.simps [simp del] getLongestChain_range.simps [simp del]

section \<open>computePathSubgraph (cmd/why.go)\<close>

text \<open>
  Modelled from the spec: the type \<^verbatim>\<open>svgEdge\<close> is declared in another file of the
  package; the specification describes it as an ordered pair (from, to) used as a set
  element, equal when both fields are equal, and the code builds it with the fields
  \<^verbatim>\<open>From\<close> and \<^verbatim>\<open>To\<close>.
\<close>

record svgEdge =
  From :: string
  To :: string

text \<open>
  The edge set is a \<^verbatim>\<open>map[svgEdge]bool\<close> and the colouring of the depth-first search a
  \<^verbatim>\<open>map[string]int\<close> with the three constants of the function.
\<close>

type_synonym edgemap = "(svgEdge \<times> bool) list"
type_synonym statemap = "(node \<times> int) list"

definition lookupI :: "('k \<times> int) list \<Rightarrow> 'k \<Rightarrow> int" where
  "lookupI m k = (case map_of m k of Some i \<Rightarrow> i | None \<Rightarrow> 0)"

lemma lookupI_update: "lookupI (AList.update k i m) = (lookupI m)(k := i)"
  by (rule ext) (simp add: lookupI_def update_conv')

lemma lookupI_Nil: "lookupI [] k = 0"
  by (simp add: lookupI_def)

definition visitUnseen :: int where "visitUnseen = 0"
definition visitActive :: int where "visitActive = 1"
definition visitDone :: int where "visitDone = 2"

text \<open>
  The forward search: \<open>forward_main\<close> is the loop over \<^verbatim>\<open>mainModules\<close> that seeds the
  queue, \<open>forward_queue\<close> the \<^verbatim>\<open>for len(queue) > 0\<close> loop and \<open>forward_nexts\<close> the loop over
  \<^verbatim>\<open>graph[cur]\<close>.
\<close>

fun forward_main :: "node list \<Rightarrow> boolmap \<Rightarrow> boolmap \<Rightarrow> node list \<Rightarrow> boolmap \<times> node list" where
  "forward_main [] reachable forward queue = (forward, queue)"
| "forward_main (m # mainModules) reachable forward queue =
     (if lookupB reachable m
      then forward_main mainModules reachable (AList.update m True forward) (queue @ [m])
      else forward_main mainModules reachable forward queue)"

fun forward_nexts :: "node list \<Rightarrow> boolmap \<Rightarrow> boolmap \<Rightarrow> node list \<Rightarrow> boolmap \<times> node list" where
  "forward_nexts [] reachable forward queue = (forward, queue)"
| "forward_nexts (next # rest) reachable forward queue =
     (if lookupB reachable next \<and> \<not> lookupB forward next
      then forward_nexts rest reachable (AList.update next True forward) (queue @ [next])
      else forward_nexts rest reachable forward queue)"

lemma forward_nexts_members:
  "forward_nexts ns r f q = (f', q') \<Longrightarrow> members f' = members f \<union> {n \<in> set ns. lookupB r n}"
  by (induction ns arbitrary: f q) (auto simp: members_def lookupB_update split: if_splits)

lemma forward_nexts_queue:
  "forward_nexts ns r f q = (f', q') \<Longrightarrow>
     \<exists>news. q' = q @ news \<and> set news = {n \<in> set ns. lookupB r n} - members f"
proof (induction ns arbitrary: f q)
  case Nil
  then show ?case by simp
next
  case (Cons n ns)
  show ?case
  proof (cases "lookupB r n \<and> \<not> lookupB f n")
    case False
    with Cons.prems have "forward_nexts ns r f q = (f', q')" by auto
    from Cons.IH[OF this] False show ?thesis by (auto simp: members_def)
  next
    case True
    with Cons.prems have "forward_nexts ns r (AList.update n True f) (q @ [n]) = (f', q')" by simp
    from Cons.IH[OF this] obtain news where
      "q' = (q @ [n]) @ news" "set news = {n \<in> set ns. lookupB r n} - members (AList.update n True f)" by blast
    with True show ?thesis
      by (intro exI[of _ "n # news"]) (auto simp: members_def lookupB_update)
  qed
qed

lemma forward_nexts_nothing_new:
  "{n \<in> set ns. lookupB r n} \<subseteq> members f \<Longrightarrow> forward_nexts ns r f q = (f, q)"
  by (induction ns arbitrary: f q) (auto simp: members_def)

function forward_queue :: "graph \<Rightarrow> boolmap \<Rightarrow> boolmap \<Rightarrow> node list \<Rightarrow> boolmap" where
  "forward_queue graph reachable forward [] = forward"
| "forward_queue graph reachable forward (cur # queue) =
     (case forward_nexts (lookupL graph cur) reachable forward queue of
        (forward', queue') \<Rightarrow> forward_queue graph reachable forward' queue')"
  by pat_completeness auto

termination forward_queue
proof (relation "inv_image (less_than <*lex*> less_than) (\<lambda>(graph, reachable, forward, queue). (unmarked graph forward, length queue))",
    goal_cases)
  case 1
  show ?case by auto
next
  case (2 graph reachable forward cur queue f' q')
  then have b: "forward_nexts (lookupL graph cur) reachable forward queue = (f', q')" by simp
  show ?case
  proof (cases "{n \<in> set (lookupL graph cur). lookupB reachable n} \<subseteq> members forward")
    case True
    with b have "f' = forward" "q' = queue" by (simp_all add: forward_nexts_nothing_new)
    then show ?thesis by simp
  next
    case False
    then obtain x where x: "x \<in> set (lookupL graph cur)" "lookupB reachable x" "x \<notin> members forward" by blast
    from forward_nexts_members[OF b] x have "members forward \<subseteq> members f'" "x \<in> members f'" by auto
    moreover have "x \<in> \<Union> (set ` snd ` set graph)"
      using lookupL_in_values[of graph cur] x(1) by (rule subsetD)
    ultimately have "unmarked graph f' < unmarked graph forward"
      using x(3) by (intro unmarked_less)
    then show ?thesis by simp
  qed
qed

declare forward_queue.simps [simp del]

text \<open>
  The restricted adjacency list: \<open>adj_nodes\<close> is the loop over the sorted node list,
  \<open>adj_tos\<close> the loop over \<^verbatim>\<open>graph[from]\<close>, and \<open>sort_Strings_at\<close> the call
  \<^verbatim>\<open>sort.Strings(adj[from])\<close>, which sorts the slice stored under the key in place and
  does nothing when the key is absent.
\<close>

fun adj_tos :: "node \<Rightarrow> node list \<Rightarrow> boolmap \<Rightarrow> graph \<Rightarrow> graph" where
  "adj_tos from [] nodeSet adj = adj"
| "adj_tos from (to # tos) nodeSet adj =
     (if lookupB nodeSet to
      then adj_tos from tos nodeSet (AList.update from (lookupL adj from @ [to]) adj)
      else adj_tos from tos nodeSet adj)"

definition sort_Strings_at :: "node \<Rightarrow> graph \<Rightarrow> graph" where
  "sort_Strings_at from adj =
     (case map_of adj from of None \<Rightarrow> adj | Some tos \<Rightarrow> AList.update from (sort tos) adj)"

fun adj_nodes :: "node list \<Rightarrow> graph \<Rightarrow> boolmap \<Rightarrow> graph \<Rightarrow> graph" where
  "adj_nodes [] graph nodeSet adj = adj"
| "adj_nodes (from # nodes) graph nodeSet adj =
     adj_nodes nodes graph nodeSet (sort_Strings_at from (adj_tos from (lookupL graph from) nodeSet adj))"

text \<open>
  The closure \<^verbatim>\<open>dfs\<close> mutates \<^verbatim>\<open>state\<close> and \<^verbatim>\<open>edgeSet\<close>; the model passes both and
  takes the captured \<^verbatim>\<open>adj\<close> as a parameter. \<open>dfs_range\<close> is its loop over
  \<^verbatim>\<open>adj[cur]\<close> with the three-way \<^verbatim>\<open>switch\<close>.
\<close>

function (domintros) dfs :: "graph \<Rightarrow> node \<Rightarrow> statemap \<Rightarrow> edgemap \<Rightarrow> statemap \<times> edgemap"
and dfs_range :: "graph \<Rightarrow> node \<Rightarrow> node list \<Rightarrow> statemap \<Rightarrow> edgemap \<Rightarrow> statemap \<times> edgemap"
where
  "dfs adj cur state edgeSet =
     (case dfs_range adj cur (lookupL adj cur) (AList.update cur visitActive state) edgeSet of
        (state', edgeSet') \<Rightarrow> (AList.update cur visitDone state', edgeSet'))"
| "dfs_range adj cur [] state edgeSet = (state, edgeSet)"
| "dfs_range adj cur (next # rest) state edgeSet =
     (if lookupI state next = visitUnseen
      then (case dfs adj next state (AList.update \<lparr>From = cur, To = next\<rparr> True edgeSet) of
              (state', edgeSet') \<Rightarrow> dfs_range adj cur rest state' edgeSet')
      else if lookupI state next = visitActive
      then dfs_range adj cur rest state edgeSet
      else dfs_range adj cur rest state (AList.update \<lparr>From = cur, To = next\<rparr> True edgeSet))"
  by pat_completeness auto

text \<open>
  Termination of the depth-first search: a call is made only for an unseen node and
  colours it first, and no call resets a colour to unseen, which is proved on the domain
  of the function first.
\<close>

definition unseen :: "graph \<Rightarrow> statemap \<Rightarrow> nat" where
  "unseen adj state = card {x \<in> fst ` set adj. lookupI state x = visitUnseen}"

lemma unseen_mono:
  "(\<And>x. lookupI st x \<noteq> visitUnseen \<Longrightarrow> lookupI st' x \<noteq> visitUnseen) \<Longrightarrow> unseen adj st' \<le> unseen adj st"
  unfolding unseen_def by (intro card_mono) auto

lemma unseen_mark:
  assumes "x \<in> fst ` set adj" "lookupI st x = visitUnseen"
  shows "unseen adj (AList.update x visitActive st) < unseen adj st"
proof -
  have "{y \<in> fst ` set adj. lookupI (AList.update x visitActive st) y = visitUnseen}
          \<subset> {y \<in> fst ` set adj. lookupI st y = visitUnseen}"
    using assms by (auto simp: lookupI_update visitActive_def visitUnseen_def)
  moreover have "finite {y \<in> fst ` set adj. lookupI st y = visitUnseen}" by simp
  ultimately show ?thesis unfolding unseen_def by (rule psubset_card_mono[rotated])
qed

lemma dfs_seen_partial:
  "dfs_dfs_range_dom (Inl (adj, cur, st, es)) \<Longrightarrow>
     lookupI st x \<noteq> visitUnseen \<Longrightarrow> lookupI (fst (dfs adj cur st es)) x \<noteq> visitUnseen"
  "dfs_dfs_range_dom (Inr (adj, cur, ns, st, es)) \<Longrightarrow>
     lookupI st x \<noteq> visitUnseen \<Longrightarrow> lookupI (fst (dfs_range adj cur ns st es)) x \<noteq> visitUnseen"
proof (induct adj cur st es and adj cur ns st es rule: dfs_dfs_range.pinduct)
  case (1 adj cur st es)
  obtain st' es' where r: "dfs_range adj cur (lookupL adj cur) (AList.update cur visitActive st) es = (st', es')"
    by force
  have "lookupI (AList.update cur visitActive st) x \<noteq> visitUnseen"
    using 1(3) by (simp add: lookupI_update visitActive_def visitUnseen_def)
  from 1(2)[OF this] r have "lookupI st' x \<noteq> visitUnseen" by simp
  then have "lookupI (AList.update cur visitDone st') x \<noteq> visitUnseen"
    by (simp add: lookupI_update visitDone_def visitUnseen_def)
  with r show ?case by (simp add: dfs.psimps[OF 1(1)])
next
  case (2 adj cur st es)
  then show ?case by (simp add: dfs_range.psimps)
next
  case (3 adj cur n rest st es)
  show ?case
  proof (cases "lookupI st n = visitUnseen")
    case True
    obtain st' es' where d: "dfs adj n st (AList.update \<lparr>From = cur, To = n\<rparr> True es) = (st', es')"
      by force
    from 3(2)[OF True 3(6)] d have "lookupI st' x \<noteq> visitUnseen" by simp
    from 3(3)[OF True d[symmetric] this] True d show ?thesis
      by (simp add: dfs_range.psimps(2)[OF 3(1)])
  next
    case False
    with 3(1,4,5,6) show ?thesis by (simp add: dfs_range.psimps(2)[OF 3(1)])
  qed
qed

definition dfs_measure ::
  "(graph \<times> node \<times> statemap \<times> edgemap) + (graph \<times> node \<times> node list \<times> statemap \<times> edgemap)
     \<Rightarrow> nat \<times> nat \<times> nat" where
  "dfs_measure x =
     (case x of
        Inl (adj, cur, st, es) \<Rightarrow>
          (if lookupL adj cur = [] then (0, 1, 0) else (unseen adj (AList.update cur visitActive st), 2, 0))
      | Inr (adj, cur, ns, st, es) \<Rightarrow>
          (if ns = [] then (0, 0, 0) else (unseen adj st, 1, length ns)))"

termination dfs
proof (relation "inv_image (less_than <*lex*> less_than <*lex*> less_than) dfs_measure", goal_cases)
  case 1
  show ?case by auto
next
  case (2 adj cur st es)
  show ?case by (auto simp: dfs_measure_def)
next
  case (3 adj cur n rest st es)
  show ?case
  proof (cases "lookupL adj n = []")
    case True
    then show ?thesis by (auto simp: dfs_measure_def)
  next
    case False
    then have "n \<in> fst ` set adj" using lookupL_notin_keys by metis
    with 3 have "unseen adj (AList.update n visitActive st) < unseen adj st"
      by (simp add: unseen_mark)
    with False show ?thesis by (auto simp: dfs_measure_def)
  qed
next
  case (4 adj cur n rest st es st' es')
  have "\<And>x. lookupI st x \<noteq> visitUnseen \<Longrightarrow> lookupI st' x \<noteq> visitUnseen"
    using 4 dfs_seen_partial(1)[of adj n st "AList.update \<lparr>From = cur, To = n\<rparr> True es"]
    by (metis fst_conv)
  then have "unseen adj st' \<le> unseen adj st" by (rule unseen_mono)
  then show ?case by (auto simp: dfs_measure_def)
next
  case (5 adj cur n rest st es)
  show ?case by (auto simp: dfs_measure_def)
next
  case (6 adj cur n rest st es)
  show ?case by (auto simp: dfs_measure_def)
qed

declare dfs.simps [simp del] dfs_range.simps [simp del]

text \<open>
  \<open>dfs_nodes\<close> is the final loop over the sorted nodes. Go leaves the order in which
  \<^verbatim>\<open>range nodeSet\<close> yields the keys open; the keys are distinct and are sorted before
  they are used, so the sorted key list is the same for every order.
\<close>

fun dfs_nodes :: "graph \<Rightarrow> node list \<Rightarrow> statemap \<Rightarrow> edgemap \<Rightarrow> statemap \<times> edgemap" where
  "dfs_nodes adj [] state edgeSet = (state, edgeSet)"
| "dfs_nodes adj (node # nodes) state edgeSet =
     (if lookupI state node = visitUnseen
      then (case dfs adj node state edgeSet of (state', edgeSet') \<Rightarrow> dfs_nodes adj nodes state' edgeSet')
      else dfs_nodes adj nodes state edgeSet)"

definition computePathSubgraph :: "node list \<Rightarrow> graph \<Rightarrow> boolmap \<Rightarrow> boolmap \<times> edgemap" where
  "computePathSubgraph mainModules graph reachable =
     (case forward_main mainModules reachable [] [] of
        (forward0, queue0) \<Rightarrow>
          let forward = forward_queue graph reachable forward0 queue0;
              nodeSet = forward;
              nodes = sort (map fst nodeSet);
              adj = adj_nodes nodes graph nodeSet [];
              (state, edgeSet) = dfs_nodes adj nodes [] []
          in (nodeSet, edgeSet))"

section \<open>Notions the properties are stated with\<close>

text \<open>
  An edge of the graph: \<open>b\<close> occurs in the successor list stored under \<open>a\<close>. A route is
  what the specification calls a simple path: a non-empty node sequence from \<open>s\<close> to
  \<open>t\<close> without a repeated node whose consecutive pairs are edges.
\<close>

definition edge :: "graph \<Rightarrow> node \<Rightarrow> node \<Rightarrow> bool" where
  "edge g a b = (b \<in> set (lookupL g a))"

definition edges :: "graph \<Rightarrow> (node \<times> node) set" where
  "edges g = {(a, b). edge g a b}"

definition route :: "graph \<Rightarrow> node \<Rightarrow> node \<Rightarrow> node list \<Rightarrow> bool" where
  "route g s t p \<longleftrightarrow>
     p \<noteq> [] \<and> hd p = s \<and> last p = t \<and> distinct p \<and>
     (\<forall>i. Suc i < length p \<longrightarrow> p ! Suc i \<in> set (lookupL g (p ! i)))"

text \<open>The edge relation a reverse adjacency list stands for.\<close>

definition preds :: "graph \<Rightarrow> (node \<times> node) set" where
  "preds reverse = {(a, b). a \<in> set (lookupL reverse b)}"

text \<open>
  \<open>appended out out' P\<close>: the slice \<open>out'\<close> is \<open>out\<close> with further elements appended, each
  of which satisfies \<open>P\<close>.
\<close>

definition appended :: "'a list \<Rightarrow> 'a list \<Rightarrow> ('a \<Rightarrow> bool) \<Rightarrow> bool" where
  "appended out out' P \<longleftrightarrow> (\<exists>new. out' = out @ new \<and> (\<forall>p \<in> set new. P p))"

text \<open>
  The four tests of \<^const>\<open>findAllPaths\<close> that return without descending, what a call
  below a current path emits (\<open>emitted\<close>), and what it has to emit when the budget is
  unlimited (\<open>wanted\<close>); \<open>q\<close> is the part of the path from the call's start node on.
\<close>

definition findAllPaths_stops :: "int \<Rightarrow> node \<Rightarrow> boolmap \<Rightarrow> node list \<Rightarrow> boolmap \<Rightarrow> node list list \<Rightarrow> int \<Rightarrow> bool" where
  "findAllPaths_stops d s r cp v out m \<longleftrightarrow>
     (m > 0 \<and> int (length out) \<ge> m) \<or> \<not> lookupB r s \<or> (d > 0 \<and> int (length cp) \<ge> d) \<or> lookupB v s"

definition emitted :: "node \<Rightarrow> graph \<Rightarrow> boolmap \<Rightarrow> boolmap \<Rightarrow> node list \<Rightarrow> bool" where
  "emitted t g r v q \<longleftrightarrow>
     q \<noteq> [] \<and> last q = t \<and> distinct q \<and> successively (edge g) q \<and>
     (\<forall>x \<in> set (butlast q). x \<noteq> t \<and> \<not> lookupB v x \<and> lookupB r x)"

definition wanted :: "int \<Rightarrow> node \<Rightarrow> graph \<Rightarrow> boolmap \<Rightarrow> boolmap \<Rightarrow> node list \<Rightarrow> node list \<Rightarrow> bool" where
  "wanted d t g r v cp q \<longleftrightarrow>
     q \<noteq> [] \<and> last q = t \<and> distinct q \<and> successively (edge g) q \<and>
     (\<forall>x \<in> set q. lookupB r x) \<and> (\<forall>x \<in> set q. \<not> lookupB v x) \<and>
     (0 < d \<longrightarrow> int (length cp + length q) \<le> d + 1)"

text \<open>
  For \<^const>\<open>computePathSubgraph\<close>: the pairs an edge map holds (\<open>recorded\<close>), the edges of
  the graph between nodes the reachability map marks (\<open>within\<close>), and the invariants of
  the three-colour search. A node is \<open>finished\<close> when it is neither unseen nor active.
  \<open>dfs_inv\<close>: every recorded edge starts at a seen node and is an edge of the restricted
  adjacency list, a recorded edge from a finished node leads to a finished node, and the
  recorded edges are acyclic. \<open>dfs_step\<close>: a seen node keeps its colour and an unseen node
  stays unseen or becomes finished. \<open>covered\<close>: the node has a recorded incoming edge,
  or every edge from it to another node is recorded.
\<close>

definition recorded :: "edgemap \<Rightarrow> (node \<times> node) set" where
  "recorded es = {(a, b). lookupB es \<lparr>From = a, To = b\<rparr>}"

definition within :: "graph \<Rightarrow> boolmap \<Rightarrow> (node \<times> node) set" where
  "within g r = {(a, b). edge g a b \<and> lookupB r a \<and> lookupB r b}"

definition finished :: "statemap \<Rightarrow> node \<Rightarrow> bool" where
  "finished st x \<longleftrightarrow> lookupI st x \<noteq> visitUnseen \<and> lookupI st x \<noteq> visitActive"

definition all_true :: "('k \<times> bool) list \<Rightarrow> bool" where
  "all_true m \<longleftrightarrow> (\<forall>(k, b) \<in> set m. b)"

definition dfs_inv :: "graph \<Rightarrow> statemap \<Rightarrow> edgemap \<Rightarrow> bool" where
  "dfs_inv adj st es \<longleftrightarrow>
     (\<forall>(a, b) \<in> recorded es. lookupI st a \<noteq> visitUnseen \<and> b \<in> set (lookupL adj a)) \<and>
     (\<forall>(a, b) \<in> recorded es. finished st a \<longrightarrow> finished st b) \<and>
     acyclic (recorded es)"

definition dfs_step :: "statemap \<Rightarrow> statemap \<Rightarrow> bool" where
  "dfs_step st st' \<longleftrightarrow>
     (\<forall>x. lookupI st x \<noteq> visitUnseen \<longrightarrow> lookupI st' x = lookupI st x) \<and>
     (\<forall>x. lookupI st x = visitUnseen \<longrightarrow> lookupI st' x = visitUnseen \<or> finished st' x)"

definition fresh :: "statemap \<Rightarrow> statemap \<Rightarrow> node \<Rightarrow> bool" where
  "fresh st st' x \<longleftrightarrow> lookupI st x = visitUnseen \<and> lookupI st' x \<noteq> visitUnseen"

definition dfs_pre :: "graph \<Rightarrow> node \<Rightarrow> statemap \<Rightarrow> edgemap \<Rightarrow> bool" where
  "dfs_pre adj cur st es \<longleftrightarrow> lookupI st cur = visitUnseen \<and> dfs_inv adj st es"

definition dfs_range_pre :: "graph \<Rightarrow> node \<Rightarrow> node list \<Rightarrow> statemap \<Rightarrow> edgemap \<Rightarrow> bool" where
  "dfs_range_pre adj cur ns st es \<longleftrightarrow>
     lookupI st cur = visitActive \<and> dfs_inv adj st es \<and> set ns \<subseteq> set (lookupL adj cur) \<and>
     (\<forall>b. (cur, b) \<in> recorded es \<longrightarrow> finished st b)"

definition dfs_post :: "graph \<Rightarrow> node \<Rightarrow> statemap \<Rightarrow> edgemap \<Rightarrow> statemap \<Rightarrow> edgemap \<Rightarrow> bool" where
  "dfs_post adj cur st es st' es' \<longleftrightarrow>
     dfs_inv adj st' es' \<and> dfs_step st st' \<and> finished st' cur \<and> recorded es \<subseteq> recorded es' \<and>
     (\<forall>a b. (a, b) \<in> recorded es' \<and> (a, b) \<notin> recorded es \<longrightarrow> lookupI st a = visitUnseen) \<and>
     (\<forall>x. x \<noteq> cur \<and> fresh st st' x \<longrightarrow> (\<exists>p. (p, x) \<in> recorded es')) \<and>
     ((\<forall>x. lookupI st x \<noteq> visitActive) \<longrightarrow>
        (\<forall>s \<in> set (lookupL adj cur). s \<noteq> cur \<longrightarrow> (cur, s) \<in> recorded es'))"

definition dfs_range_post :: "graph \<Rightarrow> node \<Rightarrow> node list \<Rightarrow> statemap \<Rightarrow> edgemap \<Rightarrow> statemap \<Rightarrow> edgemap \<Rightarrow> bool" where
  "dfs_range_post adj cur ns st es st' es' \<longleftrightarrow>
     dfs_inv adj st' es' \<and> dfs_step st st' \<and> recorded es \<subseteq> recorded es' \<and>
     (\<forall>a b. (a, b) \<in> recorded es' \<and> (a, b) \<notin> recorded es \<longrightarrow> a = cur \<or> lookupI st a = visitUnseen) \<and>
     (\<forall>b. (cur, b) \<in> recorded es' \<longrightarrow> finished st' b) \<and>
     (\<forall>x. fresh st st' x \<longrightarrow> (\<exists>p. (p, x) \<in> recorded es')) \<and>
     ((\<forall>x. lookupI st x = visitActive \<longrightarrow> x = cur) \<longrightarrow>
        (\<forall>s \<in> set ns. s \<noteq> cur \<longrightarrow> (cur, s) \<in> recorded es'))"

definition covered :: "graph \<Rightarrow> edgemap \<Rightarrow> node \<Rightarrow> bool" where
  "covered adj es x \<longleftrightarrow>
     (\<exists>p. (p, x) \<in> recorded es) \<or> (\<forall>s \<in> set (lookupL adj x). s \<noteq> x \<longrightarrow> (x, s) \<in> recorded es)"

definition dfs_nodes_inv :: "graph \<Rightarrow> statemap \<Rightarrow> edgemap \<Rightarrow> bool" where
  "dfs_nodes_inv adj st es \<longleftrightarrow>
     dfs_inv adj st es \<and> (\<forall>x. lookupI st x \<noteq> visitActive) \<and>
     (\<forall>x. lookupI st x \<noteq> visitUnseen \<longrightarrow> covered adj es x)"

definition forward_set :: "node list \<Rightarrow> graph \<Rightarrow> boolmap \<Rightarrow> boolmap" where
  "forward_set ms g r = (case forward_main ms r [] [] of (f0, q0) \<Rightarrow> forward_queue g r f0 q0)"

text \<open>
  For \<^const>\<open>getLongestChain\<close>: \<open>longest g n c\<close> says that \<open>c\<close> is a chain of successors
  that begins with \<open>n\<close> and that no chain of successors beginning with \<open>n\<close> is longer;
  \<open>memo_ok\<close> that every entry of the memo table is such a chain for its key; and
  \<open>getLongestChain_range_ok\<close> what the loop over the successors has achieved for the
  successors it has handled.
\<close>

definition longest :: "graph \<Rightarrow> node \<Rightarrow> Chain \<Rightarrow> bool" where
  "longest g n c \<longleftrightarrow>
     c \<noteq> [] \<and> hd c = n \<and> successively (edge g) c \<and>
     (\<forall>p. p \<noteq> [] \<and> hd p = n \<and> successively (edge g) p \<longrightarrow> length p \<le> length c)"

definition memo_ok :: "graph \<Rightarrow> chainmap \<Rightarrow> bool" where
  "memo_ok g m \<longleftrightarrow> (\<forall>n c. map_of m n = Some c \<longrightarrow> longest g n c)"

definition getLongestChain_range_ok :: "graph \<Rightarrow> node list \<Rightarrow> Chain \<Rightarrow> Chain \<Rightarrow> bool" where
  "getLongestChain_range_ok g ns best best' \<longleftrightarrow>
     length best \<le> length best' \<and> (best' = best \<or> (\<exists>d \<in> set ns. longest g d best')) \<and>
     (\<forall>d \<in> set ns. \<forall>p. p \<noteq> [] \<and> hd p = d \<and> successively (edge g) p \<longrightarrow> length p \<le> length best')"

text \<open>
  Concrete graphs: the diamond, the five-node chain and the dead-end graph of the
  repository's tests, the cycle \<open>A \<rightarrow> B \<rightarrow> C \<rightarrow> A\<close> with the exit \<open>C \<rightarrow> D\<close> of the specification,
  a graph with the cycle \<open>X \<rightarrow> Y \<rightarrow> X\<close>, and a
  \<^verbatim>\<open>map[string]bool\<close> literal that marks the listed nodes.
\<close>

definition diamond :: graph where
  "diamond = [(''A'', [''B'', ''C'']), (''B'', [''D'']), (''C'', [''D''])]"

definition chain5 :: graph where
  "chain5 = [(''A'', [''B'']), (''B'', [''C'']), (''C'', [''D'']), (''D'', [''E''])]"

definition dead_end :: graph where
  "dead_end = [(''A'', [''B'', ''C'']), (''B'', [''D'']), (''C'', [''E''])]"

definition cyclic4 :: graph where
  "cyclic4 = [(''A'', [''Y'', ''X'']), (''Y'', [''X'', ''Z'']), (''X'', [''Y''])]"

definition cycle_graph :: graph where
  "cycle_graph = [(''A'', [''B'']), (''B'', [''C'']), (''C'', [''A'', ''D''])]"

definition all_of :: "node list \<Rightarrow> boolmap" where
  "all_of ns = map (\<lambda>n. (n, True)) ns"

section \<open>Properties of findAllPaths\<close>

subsection \<open>Sequences appended to a slice\<close>

lemma appended_refl: "appended out out P"
  by (simp add: appended_def)

lemma appended_snoc: "P x \<Longrightarrow> appended out (out @ [x]) P"
  by (simp add: appended_def)

lemma appended_trans: "appended a b P \<Longrightarrow> appended b c P \<Longrightarrow> appended a c P"
  unfolding appended_def by (metis append.assoc set_append Un_iff)

lemma appended_mono: "appended a b P \<Longrightarrow> (\<And>p. P p \<Longrightarrow> Q p) \<Longrightarrow> appended a b Q"
  unfolding appended_def by blast

lemma appended_subset: "appended a b P \<Longrightarrow> set a \<subseteq> set b"
  unfolding appended_def by auto

lemma appended_Nil: "appended [] b P \<Longrightarrow> p \<in> set b \<Longrightarrow> P p"
  unfolding appended_def by auto

subsection \<open>The ways through the body\<close>

text \<open>One equation per branch of the two functions; the proofs below use these, not the
  recursive equations themselves.\<close>

lemma findAllPaths_at_target:
  "findAllPaths d t t g r cp v out m = (v, out @ [cp @ [t]])"
  by (subst findAllPaths.simps) simp

lemma findAllPaths_stop:
  "s \<noteq> t \<Longrightarrow> findAllPaths_stops d s r cp v out m \<Longrightarrow> findAllPaths d s t g r cp v out m = (v, out)"
  by (subst findAllPaths.simps) (auto simp: findAllPaths_stops_def)

lemma findAllPaths_descend:
  "s \<noteq> t \<Longrightarrow> \<not> findAllPaths_stops d s r cp v out m \<Longrightarrow>
   findAllPaths_range d (lookupL g s) t g r (cp @ [s]) (AList.update s True v) out m = (v', out') \<Longrightarrow>
   findAllPaths d s t g r cp v out m = (AList.update s False v', out')"
  by (subst findAllPaths.simps) (auto simp: findAllPaths_stops_def)

lemma findAllPaths_range_Nil:
  "findAllPaths_range d [] t g r cp v out m = (v, out)"
  by (simp add: findAllPaths_range.simps)

lemma findAllPaths_range_skip:
  "\<not> lookupB r n \<Longrightarrow>
   findAllPaths_range d (n # rest) t g r cp v out m = findAllPaths_range d rest t g r cp v out m"
  by (subst findAllPaths_range.simps) auto

lemma findAllPaths_range_full:
  "lookupB r n \<Longrightarrow> findAllPaths d n t g r cp v out m = (v', y) \<Longrightarrow>
   m > 0 \<and> int (length y) \<ge> m \<Longrightarrow>
   findAllPaths_range d (n # rest) t g r cp v out m = (v', y)"
  by (subst findAllPaths_range.simps) auto

lemma findAllPaths_range_continue:
  "lookupB r n \<Longrightarrow> findAllPaths d n t g r cp v out m = (v', y) \<Longrightarrow>
   \<not> (m > 0 \<and> int (length y) \<ge> m) \<Longrightarrow>
   findAllPaths_range d (n # rest) t g r cp v out m = findAllPaths_range d rest t g r cp v' y m"
  by (subst findAllPaths_range.simps) auto

lemma findAllPaths_visited:
  "lookupB (fst (findAllPaths d s t g r cp v out m)) = lookupB v"
  "lookupB (fst (findAllPaths_range d ns t g r cp v out m)) = lookupB v"
proof (induct d s t g r cp v out m and d ns t g r cp v out m rule: findAllPaths_findAllPaths_range.induct)
  case (1 d s t g r cp v out m)
  show ?case
  proof (cases "s = t")
    case True
    then show ?thesis by (simp add: findAllPaths_at_target)
  next
    case False
    show ?thesis
    proof (cases "findAllPaths_stops d s r cp v out m")
      case True
      with False show ?thesis by (simp add: findAllPaths_stop)
    next
      case go: False
      obtain v' out' where R: "findAllPaths_range d (lookupL g s) t g r (cp @ [s]) (AList.update s True v) out m = (v', out')"
        by force
      from go have pre: "\<not> (0 < m \<and> m \<le> int (length out))" "\<not> \<not> lookupB r s"
        "\<not> (0 < d \<and> d \<le> int (length cp))" "\<not> lookupB v s"
        by (auto simp: findAllPaths_stops_def)
      have "lookupB v' = lookupB (AList.update s True v)"
        using 1[OF False pre] R by simp
      with pre(4) have "lookupB (AList.update s False v') = lookupB v"
        by (auto simp: lookupB_update fun_eq_iff)
      then show ?thesis unfolding findAllPaths_descend[OF False go R] fst_conv .
    qed
  qed
next
  case (2 d t g r cp v out m)
  show ?case by (simp add: findAllPaths_range_Nil)
next
  case (3 d n rest t g r cp v out m)
  show ?case
  proof (cases "lookupB r n")
    case False
    with 3(1) show ?thesis by (simp add: findAllPaths_range_skip)
  next
    case True
    obtain v' y where fy: "findAllPaths d n t g r cp v out m = (v', y)" by force
    have vv: "lookupB v' = lookupB v" using 3(2) True fy by simp
    show ?thesis
    proof (cases "m > 0 \<and> int (length y) \<ge> m")
      case stop: True
      show ?thesis unfolding findAllPaths_range_full[OF True fy stop] fst_conv by (rule vv)
    next
      case cont: False
      have "lookupB (fst (findAllPaths_range d rest t g r cp v' y m)) = lookupB v'"
        using 3(3)[OF _ fy[symmetric] cont] True by simp
      with vv show ?thesis unfolding findAllPaths_range_continue[OF True fy cont] by simp
    qed
  qed
qed

lemma emitted_cong: "lookupB v' = lookupB v \<Longrightarrow> emitted t g r v' q = emitted t g r v q"
  by (simp add: emitted_def)

lemma emitted_target: "emitted t g r v [t]"
  by (simp add: emitted_def)

lemma emitted_step:
  assumes "s \<noteq> t" "\<not> lookupB v s" "lookupB r s" "hd q \<in> set (lookupL g s)"
    and "emitted t g r (AList.update s True v) q"
  shows "emitted t g r v (s # q)"
proof -
  from assms(5) have "q \<noteq> []" by (simp add: emitted_def)
  then obtain ys y where qq: "q = ys @ [y]" by (cases q rule: rev_cases) auto
  from assms(5) have y: "y = t" and d: "distinct ys" "y \<notin> set ys" and p: "successively (edge g) q"
    and b: "\<forall>x \<in> set ys. x \<noteq> t \<and> x \<noteq> s \<and> \<not> lookupB v x \<and> lookupB r x"
    unfolding qq by (auto simp: emitted_def lookupB_update split: if_splits)
  from b assms(1) y have "s \<notin> set q" unfolding qq by auto
  moreover have "successively (edge g) (s # q)"
    using p assms(4) \<open>q \<noteq> []\<close> by (simp add: successively_Cons edge_def)
  moreover have "butlast (s # q) = s # ys" "last (s # q) = t" unfolding qq using y by simp_all
  ultimately show ?thesis
    unfolding emitted_def using b d y assms(1-3) qq by auto
qed

lemma findAllPaths_sound:
  "appended out (snd (findAllPaths d s t g r cp v out m))
      (\<lambda>p. \<exists>q. p = cp @ q \<and> hd q = s \<and> emitted t g r v q)"
  "appended out (snd (findAllPaths_range d ns t g r cp v out m))
      (\<lambda>p. \<exists>q. p = cp @ q \<and> hd q \<in> set ns \<and> emitted t g r v q)"
proof (induct d s t g r cp v out m and d ns t g r cp v out m rule: findAllPaths_findAllPaths_range.induct)
  case (1 d s t g r cp v out m)
  show ?case
  proof (cases "s = t")
    case True
    have "\<exists>q. cp @ [t] = cp @ q \<and> hd q = t \<and> emitted t g r v q"
      using emitted_target by (intro exI[of _ "[t]"]) simp
    then show ?thesis unfolding True findAllPaths_at_target snd_conv by (rule appended_snoc)
  next
    case False
    show ?thesis
    proof (cases "findAllPaths_stops d s r cp v out m")
      case True
      show ?thesis unfolding findAllPaths_stop[OF False True] snd_conv by (rule appended_refl)
    next
      case go: False
      obtain v' out' where R: "findAllPaths_range d (lookupL g s) t g r (cp @ [s]) (AList.update s True v) out m = (v', out')"
        by force
      from go have pre: "\<not> (0 < m \<and> m \<le> int (length out))" "\<not> \<not> lookupB r s"
        "\<not> (0 < d \<and> d \<le> int (length cp))" "\<not> lookupB v s"
        by (auto simp: findAllPaths_stops_def)
      have "appended out out' (\<lambda>p. \<exists>q. p = (cp @ [s]) @ q \<and> hd q \<in> set (lookupL g s)
                \<and> emitted t g r (AList.update s True v) q)"
        using 1[OF False pre] R by simp
      then have "appended out out' (\<lambda>p. \<exists>q. p = cp @ q \<and> hd q = s \<and> emitted t g r v q)"
      proof (rule appended_mono)
        fix p assume "\<exists>q. p = (cp @ [s]) @ q \<and> hd q \<in> set (lookupL g s)
                \<and> emitted t g r (AList.update s True v) q"
        then obtain q where q: "p = (cp @ [s]) @ q" "hd q \<in> set (lookupL g s)"
          "emitted t g r (AList.update s True v) q" by blast
        have "emitted t g r v (s # q)"
          using False pre(4) pre(2) q(2) q(3) by (intro emitted_step) auto
        with q(1) show "\<exists>q. p = cp @ q \<and> hd q = s \<and> emitted t g r v q"
          by (intro exI[of _ "s # q"]) simp
      qed
      then show ?thesis unfolding findAllPaths_descend[OF False go R] snd_conv .
    qed
  qed
next
  case (2 d t g r cp v out m)
  show ?case by (simp add: appended_refl findAllPaths_range_Nil)
next
  case (3 d n rest t g r cp v out m)
  show ?case
  proof (cases "lookupB r n")
    case False
    have "appended out (snd (findAllPaths_range d rest t g r cp v out m))
            (\<lambda>p. \<exists>q. p = cp @ q \<and> hd q \<in> set rest \<and> emitted t g r v q)"
      using 3(1)[OF False] .
    then show ?thesis unfolding findAllPaths_range_skip[OF False]
      by (rule appended_mono) auto
  next
    case True
    obtain v' y where fy: "findAllPaths d n t g r cp v out m = (v', y)" by force
    have "appended out y (\<lambda>p. \<exists>q. p = cp @ q \<and> hd q = n \<and> emitted t g r v q)"
      using 3(2) True fy by simp
    then have a1: "appended out y (\<lambda>p. \<exists>q. p = cp @ q \<and> hd q \<in> set (n # rest) \<and> emitted t g r v q)"
      by (rule appended_mono) auto
    show ?thesis
    proof (cases "m > 0 \<and> int (length y) \<ge> m")
      case stop: True
      show ?thesis unfolding findAllPaths_range_full[OF True fy stop] snd_conv by (rule a1)
    next
      case cont: False
      have vv: "lookupB v' = lookupB v"
        using findAllPaths_visited(1)[of d n t g r cp v out m] fy by simp
      have "appended y (snd (findAllPaths_range d rest t g r cp v' y m))
               (\<lambda>p. \<exists>q. p = cp @ q \<and> hd q \<in> set rest \<and> emitted t g r v' q)"
        using 3(3)[OF _ fy[symmetric] cont] True by simp
      then have "appended y (snd (findAllPaths_range d rest t g r cp v' y m))
               (\<lambda>p. \<exists>q. p = cp @ q \<and> hd q \<in> set (n # rest) \<and> emitted t g r v q)"
        by (rule appended_mono) (auto simp: emitted_cong[OF vv])
      with a1 show ?thesis unfolding findAllPaths_range_continue[OF True fy cont]
        by (rule appended_trans)
    qed
  qed
qed

lemma findAllPaths_depth:
  "0 < d \<Longrightarrow> int (length cp) \<le> d \<Longrightarrow>
     appended out (snd (findAllPaths d s t g r cp v out m)) (\<lambda>p. int (length p) \<le> d + 1)"
  "0 < d \<Longrightarrow> int (length cp) \<le> d \<Longrightarrow>
     appended out (snd (findAllPaths_range d ns t g r cp v out m)) (\<lambda>p. int (length p) \<le> d + 1)"
proof (induct d s t g r cp v out m and d ns t g r cp v out m rule: findAllPaths_findAllPaths_range.induct)
  case (1 d s t g r cp v out m)
  show ?case
  proof (cases "s = t")
    case True
    have "int (length (cp @ [t])) \<le> d + 1" using 1(3) by simp
    then show ?thesis unfolding True findAllPaths_at_target snd_conv by (rule appended_snoc)
  next
    case False
    show ?thesis
    proof (cases "findAllPaths_stops d s r cp v out m")
      case True
      show ?thesis unfolding findAllPaths_stop[OF False True] snd_conv by (rule appended_refl)
    next
      case go: False
      obtain v' out' where R: "findAllPaths_range d (lookupL g s) t g r (cp @ [s]) (AList.update s True v) out m = (v', out')"
        by force
      from go have pre: "\<not> (0 < m \<and> m \<le> int (length out))" "\<not> \<not> lookupB r s"
        "\<not> (0 < d \<and> d \<le> int (length cp))" "\<not> lookupB v s"
        by (auto simp: findAllPaths_stops_def)
      from pre(3) 1(2) have "int (length (cp @ [s])) \<le> d" by simp
      then have "appended out out' (\<lambda>p. int (length p) \<le> d + 1)"
        using 1(1)[OF False pre 1(2)] R by simp
      then show ?thesis unfolding findAllPaths_descend[OF False go R] snd_conv .
    qed
  qed
next
  case (2 d t g r cp v out m)
  show ?case by (simp add: appended_refl findAllPaths_range_Nil)
next
  case (3 d n rest t g r cp v out m)
  show ?case
  proof (cases "lookupB r n")
    case False
    show ?thesis unfolding findAllPaths_range_skip[OF False]
      using 3(1)[OF False 3(4,5)] .
  next
    case True
    obtain v' y where fy: "findAllPaths d n t g r cp v out m = (v', y)" by force
    have a1: "appended out y (\<lambda>p. int (length p) \<le> d + 1)"
      using 3(2)[OF _ 3(4,5)] True fy by simp
    show ?thesis
    proof (cases "m > 0 \<and> int (length y) \<ge> m")
      case stop: True
      show ?thesis unfolding findAllPaths_range_full[OF True fy stop] snd_conv by (rule a1)
    next
      case cont: False
      have "appended y (snd (findAllPaths_range d rest t g r cp v' y m)) (\<lambda>p. int (length p) \<le> d + 1)"
        using 3(3)[OF _ fy[symmetric] cont 3(4,5)] True by simp
      with a1 show ?thesis unfolding findAllPaths_range_continue[OF True fy cont]
        by (rule appended_trans)
    qed
  qed
qed

lemma findAllPaths_budget:
  "0 < m \<Longrightarrow> int (length out) < m \<Longrightarrow> int (length (snd (findAllPaths d s t g r cp v out m))) \<le> m"
  "0 < m \<Longrightarrow> int (length out) < m \<Longrightarrow> int (length (snd (findAllPaths_range d ns t g r cp v out m))) \<le> m"
proof (induct d s t g r cp v out m and d ns t g r cp v out m rule: findAllPaths_findAllPaths_range.induct)
  case (1 d s t g r cp v out m)
  show ?case
  proof (cases "s = t")
    case True
    show ?thesis unfolding True findAllPaths_at_target snd_conv using 1(3) by simp
  next
    case False
    show ?thesis
    proof (cases "findAllPaths_stops d s r cp v out m")
      case True
      show ?thesis unfolding findAllPaths_stop[OF False True] snd_conv using 1(3) by simp
    next
      case go: False
      obtain v' out' where R: "findAllPaths_range d (lookupL g s) t g r (cp @ [s]) (AList.update s True v) out m = (v', out')"
        by force
      from go have pre: "\<not> (0 < m \<and> m \<le> int (length out))" "\<not> \<not> lookupB r s"
        "\<not> (0 < d \<and> d \<le> int (length cp))" "\<not> lookupB v s"
        by (auto simp: findAllPaths_stops_def)
      have "int (length out') \<le> m"
        using 1(1)[OF False pre 1(2,3)] R by simp
      then show ?thesis unfolding findAllPaths_descend[OF False go R] snd_conv .
    qed
  qed
next
  case (2 d t g r cp v out m)
  then show ?case by (simp add: findAllPaths_range_Nil)
next
  case (3 d n rest t g r cp v out m)
  show ?case
  proof (cases "lookupB r n")
    case False
    show ?thesis unfolding findAllPaths_range_skip[OF False]
      using 3(1)[OF False 3(4,5)] .
  next
    case True
    obtain v' y where fy: "findAllPaths d n t g r cp v out m = (v', y)" by force
    have a1: "int (length y) \<le> m"
      using 3(2)[OF _ 3(4,5)] True fy by simp
    show ?thesis
    proof (cases "m > 0 \<and> int (length y) \<ge> m")
      case stop: True
      show ?thesis unfolding findAllPaths_range_full[OF True fy stop] snd_conv by (rule a1)
    next
      case cont: False
      with 3(4) have "int (length y) < m" by simp
      then show ?thesis unfolding findAllPaths_range_continue[OF True fy cont]
        using 3(3)[OF _ fy[symmetric] cont 3(4)] True by simp
    qed
  qed
qed

text \<open>Completeness when the budget is unlimited.\<close>

lemma wanted_cong: "lookupB v' = lookupB v \<Longrightarrow> wanted d t g r v' cp q = wanted d t g r v cp q"
  by (simp add: wanted_def)

lemma wanted_tail:
  assumes "wanted d t g r v cp (s # q')" "s \<noteq> t"
  shows "q' \<noteq> []" "hd q' \<in> set (lookupL g s)" "wanted d t g r (AList.update s True v) (cp @ [s]) q'"
    "\<not> (0 < d \<and> d \<le> int (length cp))" "lookupB r s" "\<not> lookupB v s"
proof -
  from assms show ne: "q' \<noteq> []" by (auto simp: wanted_def)
  from assms ne show "hd q' \<in> set (lookupL g s)"
    by (auto simp: wanted_def successively_Cons edge_def)
  from assms ne show "wanted d t g r (AList.update s True v) (cp @ [s]) q'"
    by (auto simp: wanted_def successively_Cons lookupB_update)
  from assms ne have "2 \<le> length (s # q')" by (cases q') auto
  with assms show "\<not> (0 < d \<and> d \<le> int (length cp))" by (auto simp: wanted_def)
  from assms show "lookupB r s" "\<not> lookupB v s" by (auto simp: wanted_def)
qed

lemma findAllPaths_complete:
  "m \<le> 0 \<Longrightarrow> wanted d t g r v cp q \<Longrightarrow> hd q = s \<Longrightarrow>
     cp @ q \<in> set (snd (findAllPaths d s t g r cp v out m))"
  "m \<le> 0 \<Longrightarrow> wanted d t g r v cp q \<Longrightarrow> hd q \<in> set ns \<Longrightarrow>
     cp @ q \<in> set (snd (findAllPaths_range d ns t g r cp v out m))"
proof (induct d s t g r cp v out m and d ns t g r cp v out m arbitrary: q and q rule: findAllPaths_findAllPaths_range.induct)
  case (1 d s t g r cp v out m)
  from 1(3) obtain q' where q: "q = s # q'" using 1(4) by (cases q) (auto simp: wanted_def)
  show ?case
  proof (cases "s = t")
    case True
    with 1(3) q have "q' = []" by (cases q' rule: rev_cases) (auto simp: wanted_def)
    with q True show ?thesis by (simp add: findAllPaths_at_target)
  next
    case False
    note tl = wanted_tail[OF 1(3)[unfolded q] False]
    from tl 1(2) have go: "\<not> findAllPaths_stops d s r cp v out m"
      by (auto simp: findAllPaths_stops_def)
    obtain v' out' where R: "findAllPaths_range d (lookupL g s) t g r (cp @ [s]) (AList.update s True v) out m = (v', out')"
      by force
    from go have pre: "\<not> (0 < m \<and> m \<le> int (length out))" "\<not> \<not> lookupB r s"
      "\<not> (0 < d \<and> d \<le> int (length cp))" "\<not> lookupB v s"
      by (auto simp: findAllPaths_stops_def)
    have "(cp @ [s]) @ q' \<in> set out'"
      using 1(1)[OF False pre 1(2) tl(3) tl(2)] R by simp
    then show ?thesis unfolding findAllPaths_descend[OF False go R] snd_conv q by simp
  qed
next
  case (2 d t g r cp v out m)
  then show ?case by simp
next
  case (3 d n rest t g r cp v out m)
  from 3(5) have rq: "lookupB r (hd q)" by (cases q) (auto simp: wanted_def)
  show ?case
  proof (cases "lookupB r n")
    case False
    with rq 3(6) have "hd q \<in> set rest" by auto
    then show ?thesis unfolding findAllPaths_range_skip[OF False]
      using 3(1)[OF False 3(4,5)] by simp
  next
    case True
    obtain v' y where fy: "findAllPaths d n t g r cp v out m = (v', y)" by force
    from 3(4) have cont: "\<not> (m > 0 \<and> int (length y) \<ge> m)" by simp
    have vv: "lookupB v' = lookupB v"
      using findAllPaths_visited(1)[of d n t g r cp v out m] fy by simp
    have sub: "set y \<subseteq> set (snd (findAllPaths_range d rest t g r cp v' y m))"
      using findAllPaths_sound(2)[of y d rest t g r cp v' m] by (rule appended_subset)
    show ?thesis
    proof (cases "hd q = n")
      case hd: True
      have "cp @ q \<in> set y" using 3(2)[OF _ 3(4,5) hd] True fy by simp
      with sub show ?thesis unfolding findAllPaths_range_continue[OF True fy cont] by blast
    next
      case False
      with 3(6) have "hd q \<in> set rest" by simp
      moreover have "wanted d t g r v' cp q" using 3(5) wanted_cong[OF vv] by simp
      ultimately show ?thesis unfolding findAllPaths_range_continue[OF True fy cont]
        using 3(3)[OF _ fy[symmetric] cont 3(4)] True by simp
    qed
  qed
qed

lemma successively_nth:
  "successively P xs \<longleftrightarrow> (\<forall>i. Suc i < length xs \<longrightarrow> P (xs ! i) (xs ! Suc i))"
proof (induction P xs rule: successively.induct)
  case (3 P x y xs)
  have "(\<forall>i. Suc i < length (x # y # xs) \<longrightarrow> P ((x # y # xs) ! i) ((x # y # xs) ! Suc i))
        \<longleftrightarrow> P x y \<and> (\<forall>i. Suc i < length (y # xs) \<longrightarrow> P ((y # xs) ! i) ((y # xs) ! Suc i))"
    (is "?L \<longleftrightarrow> ?R")
  proof
    assume l: ?L
    from l[rule_format, of 0] have "P x y" by simp
    moreover have "\<forall>i. Suc i < length (y # xs) \<longrightarrow> P ((y # xs) ! i) ((y # xs) ! Suc i)"
    proof (intro allI impI)
      fix i assume "Suc i < length (y # xs)"
      with l[rule_format, of "Suc i"] show "P ((y # xs) ! i) ((y # xs) ! Suc i)" by simp
    qed
    ultimately show ?R by simp
  next
    assume r: ?R
    show ?L
    proof (intro allI impI)
      fix i assume i: "Suc i < length (x # y # xs)"
      show "P ((x # y # xs) ! i) ((x # y # xs) ! Suc i)"
      proof (cases i)
        case 0
        with r show ?thesis by simp
      next
        case (Suc j)
        with i r show ?thesis by simp
      qed
    qed
  qed
  with 3 show ?case by simp
qed simp_all

section \<open>Properties of computeReachableToTarget\<close>

text \<open>The reverse adjacency list holds, under \<open>b\<close>, exactly the nodes with an edge to \<open>b\<close>.\<close>

lemma reverse_tos_lookup:
  "set (lookupL (reverse_tos a tos rev0) b) = set (lookupL rev0 b) \<union> (if b \<in> set tos then {a} else {})"
  by (induction tos arbitrary: rev0) (auto simp: lookupL_update)

lemma reverse_entries_lookup:
  "set (lookupL (reverse_entries g rev0) b) =
     set (lookupL rev0 b) \<union> {a. \<exists>tos. (a, tos) \<in> set g \<and> b \<in> set tos}"
proof (induction g arbitrary: rev0)
  case Nil
  then show ?case by simp
next
  case (Cons e g)
  obtain a tos where e: "e = (a, tos)" by (cases e)
  show ?case unfolding e by (auto simp: Cons.IH reverse_tos_lookup)
qed

lemma reverse_entries_edge:
  assumes "distinct (map fst g)"
  shows "a \<in> set (lookupL (reverse_entries g []) b) \<longleftrightarrow> edge g a b"
proof -
  have "(\<exists>tos. (a, tos) \<in> set g \<and> b \<in> set tos) \<longleftrightarrow> b \<in> set (lookupL g a)"
  proof
    assume "\<exists>tos. (a, tos) \<in> set g \<and> b \<in> set tos"
    then obtain tos where "(a, tos) \<in> set g" "b \<in> set tos" by blast
    with assms have "map_of g a = Some tos" by simp
    with \<open>b \<in> set tos\<close> show "b \<in> set (lookupL g a)" by (simp add: lookupL_def)
  next
    assume b: "b \<in> set (lookupL g a)"
    then obtain tos where "map_of g a = Some tos" "b \<in> set tos"
      by (cases "map_of g a") (auto simp: lookupL_def)
    then show "\<exists>tos. (a, tos) \<in> set g \<and> b \<in> set tos" using map_of_SomeD by fast
  qed
  then show ?thesis by (simp add: reverse_entries_lookup lookupL_Nil edge_def)
qed

text \<open>The breadth-first loop, for any reverse adjacency list.\<close>

lemma bfs_queue_Nil: "bfs_queue reverse r [] = r"
  by (simp add: bfs_queue.simps)

lemma bfs_queue_Cons:
  "bfs_prevs (lookupL reverse cur) r queue = (r', q') \<Longrightarrow>
   bfs_queue reverse r (cur # queue) = bfs_queue reverse r' q'"
  by (simp add: bfs_queue.simps)

lemma bfs_queue_keeps: "members r \<subseteq> members (bfs_queue reverse r q)"
proof (induction reverse r q rule: bfs_queue.induct)
  case (1 reverse r)
  show ?case by (simp add: bfs_queue_Nil)
next
  case (2 reverse r cur queue)
  obtain r' q' where b: "bfs_prevs (lookupL reverse cur) r queue = (r', q')" by force
  from 2[OF b[symmetric]] bfs_prevs_members[OF b]
  show ?case unfolding bfs_queue_Cons[OF b] by auto
qed

lemma bfs_queue_sound:
  "set q \<subseteq> members r \<Longrightarrow> x \<in> members (bfs_queue reverse r q) \<Longrightarrow>
     \<exists>y \<in> members r. (x, y) \<in> (preds reverse)\<^sup>*"
proof (induction reverse r q rule: bfs_queue.induct)
  case (1 reverse r)
  then show ?case by (auto simp: bfs_queue_Nil)
next
  case (2 reverse r cur queue)
  obtain r' q' where b: "bfs_prevs (lookupL reverse cur) r queue = (r', q')" by force
  note m = bfs_prevs_members[OF b]
  from bfs_prevs_queue[OF b] obtain news where n: "q' = queue @ news"
    "set news = set (lookupL reverse cur) - members r" by blast
  from 2(2) m n have "set q' \<subseteq> members r'" by auto
  moreover from 2(3) have "x \<in> members (bfs_queue reverse r' q')" unfolding bfs_queue_Cons[OF b] .
  ultimately obtain y where y: "y \<in> members r'" "(x, y) \<in> (preds reverse)\<^sup>*"
    using 2(1)[OF b[symmetric]] by blast
  show ?case
  proof (cases "y \<in> members r")
    case True
    with y show ?thesis by blast
  next
    case False
    with y(1) m have "y \<in> set (lookupL reverse cur)" by auto
    then have "(y, cur) \<in> preds reverse" by (simp add: preds_def)
    with y(2) have "(x, cur) \<in> (preds reverse)\<^sup>*" by (rule rtrancl_into_rtrancl)
    moreover from 2(2) have "cur \<in> members r" by simp
    ultimately show ?thesis by blast
  qed
qed

lemma bfs_queue_closed:
  "set q \<subseteq> members r \<Longrightarrow> \<forall>x \<in> members r - set q. set (lookupL reverse x) \<subseteq> members r \<Longrightarrow>
     \<forall>x \<in> members (bfs_queue reverse r q). set (lookupL reverse x) \<subseteq> members (bfs_queue reverse r q)"
proof (induction reverse r q rule: bfs_queue.induct)
  case (1 reverse r)
  then show ?case by (simp add: bfs_queue_Nil)
next
  case (2 reverse r cur queue)
  obtain r' q' where b: "bfs_prevs (lookupL reverse cur) r queue = (r', q')" by force
  note m = bfs_prevs_members[OF b]
  from bfs_prevs_queue[OF b] obtain news where n: "q' = queue @ news"
    "set news = set (lookupL reverse cur) - members r" by blast
  from 2(2) m n have q': "set q' \<subseteq> members r'" by auto
  have "\<forall>x \<in> members r' - set q'. set (lookupL reverse x) \<subseteq> members r'"
  proof
    fix x assume x: "x \<in> members r' - set q'"
    with m n have xr: "x \<in> members r" "x \<notin> set queue" by auto
    show "set (lookupL reverse x) \<subseteq> members r'"
    proof (cases "x = cur")
      case True
      with m show ?thesis by auto
    next
      case False
      with xr have "x \<in> members r - set (cur # queue)" by simp
      with 2(3) have "set (lookupL reverse x) \<subseteq> members r" by blast
      with m show ?thesis by auto
    qed
  qed
  with q' show ?case unfolding bfs_queue_Cons[OF b]
    using 2(1)[OF b[symmetric]] by blast
qed

lemma closed_contains_rtrancl:
  assumes "(x, t) \<in> R\<^sup>*" "t \<in> S" "\<forall>b \<in> S. \<forall>a. (a, b) \<in> R \<longrightarrow> a \<in> S"
  shows "x \<in> S"
  using assms by (induction rule: converse_rtrancl_induct) auto

lemma computeReachableToTarget_members:
  assumes "distinct (map fst g)"
  shows "members (computeReachableToTarget t g) = {x. (x, t) \<in> (edges g)\<^sup>*}"
proof -
  let ?rev = "reverse_entries g []"
  let ?R = "members (bfs_queue ?rev [(t, True)] [t])"
  have pe: "preds ?rev = edges g"
    using reverse_entries_edge[OF assms] by (auto simp: preds_def edges_def)
  have t: "t \<in> ?R" using bfs_queue_keeps[of "[(t, True)]" ?rev "[t]"] by (auto simp: members_singleton)
  have "\<forall>x \<in> ?R. set (lookupL ?rev x) \<subseteq> ?R"
    by (rule bfs_queue_closed) (simp_all add: members_singleton)
  then have closed: "\<forall>b \<in> ?R. \<forall>a. (a, b) \<in> edges g \<longrightarrow> a \<in> ?R"
    unfolding pe[symmetric] preds_def by auto
  have "{x. (x, t) \<in> (edges g)\<^sup>*} \<subseteq> ?R"
    using closed_contains_rtrancl[OF _ t closed] by blast
  moreover have "?R \<subseteq> {x. (x, t) \<in> (edges g)\<^sup>*}"
  proof
    fix x assume "x \<in> ?R"
    then obtain y where "y \<in> members [(t, True)]" "(x, y) \<in> (preds ?rev)\<^sup>*"
      using bfs_queue_sound[of "[t]" "[(t, True)]" x ?rev] by (auto simp: members_singleton)
    then show "x \<in> {x. (x, t) \<in> (edges g)\<^sup>*}" by (simp add: members_singleton pe)
  qed
  ultimately show ?thesis by (simp add: computeReachableToTarget_def)
qed

section \<open>Every call terminates\<close>

text \<open>
  The domain predicate of a recursive definition holds of an argument when the relation
  of recursive calls is well-founded below it. With the termination proofs of the
  definitions it holds of every argument, by induction over the computation.
\<close>

lemma findAllPaths_in_domain:
  "findAllPaths_findAllPaths_range_dom (Inl (d, s, t, g, r, cp, v, out, m))"
  "findAllPaths_findAllPaths_range_dom (Inr (d, ns, t, g, r, cp, v, out, m))"
proof (induct d s t g r cp v out m and d ns t g r cp v out m rule: findAllPaths_findAllPaths_range.induct)
  case (1 d s t g r cp v out m)
  then show ?case by (intro findAllPaths_findAllPaths_range.domintros(1)) auto
next
  case (2 d t g r cp v out m)
  show ?case by (rule findAllPaths_findAllPaths_range.domintros)
next
  case (3 d n rest t g r cp v out m)
  show ?case
  proof (rule findAllPaths_findAllPaths_range.domintros(3))
    assume "\<not> lookupB r n"
    then show "findAllPaths_findAllPaths_range_dom (Inr (d, rest, t, g, r, cp, v, out, m))"
      by (rule 3(1))
  next
    assume "lookupB r n"
    then show "findAllPaths_findAllPaths_range_dom (Inl (d, n, t, g, r, cp, v, out, m))"
      using 3(2) by simp
  next
    fix x ya assume "lookupB r n" "(x, ya) = findAllPaths d n t g r cp v out m" "\<not> 0 < m"
    then show "findAllPaths_findAllPaths_range_dom (Inr (d, rest, t, g, r, cp, x, ya, m))"
      using 3(3)[of x ya] by simp
  next
    fix x ya assume "lookupB r n" "(x, ya) = findAllPaths d n t g r cp v out m" "\<not> m \<le> int (length ya)"
    then show "findAllPaths_findAllPaths_range_dom (Inr (d, rest, t, g, r, cp, x, ya, m))"
      using 3(3)[of x ya] by simp
  qed
qed

lemma getLongestChain_in_domain:
  "getLongestChain_getLongestChain_range_dom (Inl (n, g, c, m))"
  "getLongestChain_getLongestChain_range_dom (Inr (ns, g, c, m, b))"
proof (induct n g c m and ns g c m b rule: getLongestChain_getLongestChain_range.induct)
  case (1 n g c m)
  then show ?case by (intro getLongestChain_getLongestChain_range.domintros(1)) auto
next
  case (2 g c m b)
  show ?case by (rule getLongestChain_getLongestChain_range.domintros)
next
  case (3 dep rest g c m b)
  show ?case
  proof (rule getLongestChain_getLongestChain_range.domintros(3))
    show "getLongestChain_getLongestChain_range_dom (Inl (dep, g, c, m))" by (rule 3(1))
  next
    fix x ya assume "(x, ya) = getLongestChain dep g c m" "length b < length x"
    with 3(2)[of x ya] show "getLongestChain_getLongestChain_range_dom (Inr (rest, g, c, ya, x))" by simp
  next
    fix x ya assume "(x, ya) = getLongestChain dep g c m" "\<not> length b < length x"
    with 3(2)[of x ya] show "getLongestChain_getLongestChain_range_dom (Inr (rest, g, c, ya, b))" by simp
  qed
qed

section \<open>Properties of computePathSubgraph\<close>

lemma recorded_Nil: "recorded [] = {}"
  by (simp add: recorded_def lookupB_def)

lemma recorded_update: "recorded (AList.update \<lparr>From = a, To = b\<rparr> True es) = insert (a, b) (recorded es)"
  by (auto simp: recorded_def lookupB_update)

lemma dfs_step_refl: "dfs_step st st"
  by (simp add: dfs_step_def)

lemma dfs_step_trans: "dfs_step a b \<Longrightarrow> dfs_step b c \<Longrightarrow> dfs_step a c"
  unfolding dfs_step_def finished_def by metis

lemma dfs_step_active: "dfs_step st st' \<Longrightarrow> lookupI st' x = visitActive \<longleftrightarrow> lookupI st x = visitActive"
  unfolding dfs_step_def finished_def by (metis visitActive_def visitUnseen_def zero_neq_one)

lemma dfs_step_finished: "dfs_step st st' \<Longrightarrow> finished st x \<Longrightarrow> finished st' x"
  unfolding dfs_step_def finished_def by metis

lemma dfs_step_mark_active:
  "lookupI st cur = visitUnseen \<Longrightarrow> dfs_step (AList.update cur visitActive st) st' \<Longrightarrow>
     dfs_step st (AList.update cur visitDone st')"
  unfolding dfs_step_def finished_def
  by (auto simp: lookupI_update visitActive_def visitDone_def visitUnseen_def split: if_splits)

lemma finished_closed:
  assumes "\<forall>(a, b) \<in> E. finished st a \<longrightarrow> finished st b" "(x, y) \<in> E\<^sup>*" "finished st x"
  shows "finished st y"
  using assms(2,3,1) by (induction rule: rtrancl_induct) auto

lemma unseen_no_out:
  assumes "\<forall>(a, b) \<in> E. lookupI st a \<noteq> visitUnseen" "(x, y) \<in> E\<^sup>*" "lookupI st x = visitUnseen"
  shows "y = x"
  using assms(2,3,1) by (induction rule: converse_rtrancl_induct) auto

lemma dfs_invI:
  assumes "\<And>a b. (a, b) \<in> recorded es \<Longrightarrow> lookupI st a \<noteq> visitUnseen"
    and "\<And>a b. (a, b) \<in> recorded es \<Longrightarrow> b \<in> set (lookupL adj a)"
    and "\<And>a b. (a, b) \<in> recorded es \<Longrightarrow> finished st a \<Longrightarrow> finished st b"
    and "acyclic (recorded es)"
  shows "dfs_inv adj st es"
  using assms unfolding dfs_inv_def by blast

lemma dfs_inv_seen: "dfs_inv adj st es \<Longrightarrow> (a, b) \<in> recorded es \<Longrightarrow> lookupI st a \<noteq> visitUnseen"
  unfolding dfs_inv_def by blast

lemma dfs_inv_adj: "dfs_inv adj st es \<Longrightarrow> (a, b) \<in> recorded es \<Longrightarrow> b \<in> set (lookupL adj a)"
  unfolding dfs_inv_def by blast

lemma dfs_inv_finished: "dfs_inv adj st es \<Longrightarrow> (a, b) \<in> recorded es \<Longrightarrow> finished st a \<Longrightarrow> finished st b"
  unfolding dfs_inv_def by blast

lemma dfs_inv_acyclic: "dfs_inv adj st es \<Longrightarrow> acyclic (recorded es)"
  unfolding dfs_inv_def by blast

lemma dfs_inv_mark_active:
  assumes "lookupI st cur = visitUnseen" "dfs_inv adj st es"
  shows "dfs_inv adj (AList.update cur visitActive st) es"
proof (rule dfs_invI)
  fix a b assume ab: "(a, b) \<in> recorded es"
  from dfs_inv_seen[OF assms(2) ab] show "lookupI (AList.update cur visitActive st) a \<noteq> visitUnseen"
    by (simp add: lookupI_update visitActive_def visitUnseen_def)
  from dfs_inv_adj[OF assms(2) ab] show "b \<in> set (lookupL adj a)" .
  assume "finished (AList.update cur visitActive st) a"
  then have "a \<noteq> cur" "finished st a"
    by (auto simp: finished_def lookupI_update split: if_splits)
  from dfs_inv_finished[OF assms(2) ab this(2)] have "finished st b" .
  with assms(1) show "finished (AList.update cur visitActive st) b"
    by (auto simp: finished_def lookupI_update)
next
  show "acyclic (recorded es)" using assms(2) by (rule dfs_inv_acyclic)
qed

lemma dfs_inv_mark_done:
  assumes "lookupI st cur = visitActive" "dfs_inv adj st es"
    and "\<forall>b. (cur, b) \<in> recorded es \<longrightarrow> finished st b"
  shows "dfs_inv adj (AList.update cur visitDone st) es"
proof (rule dfs_invI)
  have fin: "finished (AList.update cur visitDone st) b" if "finished st b \<or> b = cur" for b
    using that by (auto simp: finished_def lookupI_update visitDone_def visitUnseen_def visitActive_def)
  fix a b assume ab: "(a, b) \<in> recorded es"
  from dfs_inv_seen[OF assms(2) ab] show "lookupI (AList.update cur visitDone st) a \<noteq> visitUnseen"
    by (simp add: lookupI_update visitDone_def visitUnseen_def)
  from dfs_inv_adj[OF assms(2) ab] show "b \<in> set (lookupL adj a)" .
  assume fa: "finished (AList.update cur visitDone st) a"
  show "finished (AList.update cur visitDone st) b"
  proof (cases "a = cur")
    case True
    with ab assms(3) show ?thesis by (auto intro: fin)
  next
    case False
    with fa have "finished st a" by (simp add: finished_def lookupI_update)
    from dfs_inv_finished[OF assms(2) ab this] show ?thesis by (auto intro: fin)
  qed
next
  show "acyclic (recorded es)" using assms(2) by (rule dfs_inv_acyclic)
qed

lemma dfs_inv_add_edge:
  assumes "lookupI st cur = visitActive" "n \<in> set (lookupL adj cur)" "dfs_inv adj st es"
    and "(n, cur) \<notin> (recorded es)\<^sup>*"
  shows "dfs_inv adj st (AList.update \<lparr>From = cur, To = n\<rparr> True es)"
proof (rule dfs_invI)
  fix a b assume "(a, b) \<in> recorded (AList.update \<lparr>From = cur, To = n\<rparr> True es)"
  then have ab: "(a = cur \<and> b = n) \<or> (a, b) \<in> recorded es" by (auto simp: recorded_update)
  show "lookupI st a \<noteq> visitUnseen"
    using ab assms(1) dfs_inv_seen[OF assms(3)] by (auto simp: visitActive_def visitUnseen_def)
  show "b \<in> set (lookupL adj a)"
    using ab assms(2) dfs_inv_adj[OF assms(3)] by auto
  assume "finished st a"
  with assms(1) have "a \<noteq> cur" by (auto simp: finished_def)
  with ab have "(a, b) \<in> recorded es" by simp
  from dfs_inv_finished[OF assms(3) this \<open>finished st a\<close>] show "finished st b" .
next
  show "acyclic (recorded (AList.update \<lparr>From = cur, To = n\<rparr> True es))"
    using assms(4) dfs_inv_acyclic[OF assms(3)] by (simp add: recorded_update acyclic_insert)
qed

lemma dfs_inv_tree_edge:
  assumes "lookupI st cur = visitActive" "lookupI st n = visitUnseen" "n \<in> set (lookupL adj cur)"
    and "dfs_inv adj st es"
  shows "dfs_inv adj st (AList.update \<lparr>From = cur, To = n\<rparr> True es)"
proof (rule dfs_inv_add_edge[OF assms(1,3,4)])
  show "(n, cur) \<notin> (recorded es)\<^sup>*"
  proof
    assume "(n, cur) \<in> (recorded es)\<^sup>*"
    moreover have "\<forall>(a, b) \<in> recorded es. lookupI st a \<noteq> visitUnseen"
      using dfs_inv_seen[OF assms(4)] by blast
    ultimately have "cur = n" using assms(2) by (intro unseen_no_out[of "recorded es" st n cur])
    with assms(1,2) show False by (simp add: visitActive_def visitUnseen_def)
  qed
qed

lemma dfs_inv_cross_edge:
  assumes "lookupI st cur = visitActive" "finished st n" "n \<in> set (lookupL adj cur)"
    and "dfs_inv adj st es"
  shows "dfs_inv adj st (AList.update \<lparr>From = cur, To = n\<rparr> True es)"
proof (rule dfs_inv_add_edge[OF assms(1,3,4)])
  show "(n, cur) \<notin> (recorded es)\<^sup>*"
  proof
    assume "(n, cur) \<in> (recorded es)\<^sup>*"
    moreover have "\<forall>(a, b) \<in> recorded es. finished st a \<longrightarrow> finished st b"
      using dfs_inv_finished[OF assms(4)] by blast
    ultimately have "finished st cur" using assms(2) by (intro finished_closed[of "recorded es" st n cur])
    with assms(1) show False by (simp add: finished_def)
  qed
qed

lemma dfs_unfold:
  "dfs_range adj cur (lookupL adj cur) (AList.update cur visitActive st) es = (st2, es2) \<Longrightarrow>
   dfs adj cur st es = (AList.update cur visitDone st2, es2)"
  by (simp add: dfs.simps)

lemma dfs_range_Nil: "dfs_range adj cur [] st es = (st, es)"
  by (simp add: dfs_range.simps)

lemma dfs_range_unseen:
  "lookupI st n = visitUnseen \<Longrightarrow>
   dfs adj n st (AList.update \<lparr>From = cur, To = n\<rparr> True es) = (st', es') \<Longrightarrow>
   dfs_range adj cur (n # rest) st es = dfs_range adj cur rest st' es'"
  by (simp add: dfs_range.simps)

lemma dfs_range_active:
  "lookupI st n = visitActive \<Longrightarrow>
   dfs_range adj cur (n # rest) st es = dfs_range adj cur rest st es"
  by (simp add: dfs_range.simps visitActive_def visitUnseen_def)

lemma dfs_range_finished:
  "finished st n \<Longrightarrow>
   dfs_range adj cur (n # rest) st es
     = dfs_range adj cur rest st (AList.update \<lparr>From = cur, To = n\<rparr> True es)"
  by (simp add: dfs_range.simps finished_def)

lemma dfs_post_from_range:
  assumes pre: "dfs_pre adj cur st es"
    and post: "dfs_range_post adj cur (lookupL adj cur) (AList.update cur visitActive st) es st2 es2"
  shows "dfs_post adj cur st es (AList.update cur visitDone st2) es2"
proof -
  let ?st1 = "AList.update cur visitActive st"
  let ?st' = "AList.update cur visitDone st2"
  from pre have u: "lookupI st cur = visitUnseen" by (simp add: dfs_pre_def)
  from post have r1: "dfs_inv adj st2 es2" and r2: "dfs_step ?st1 st2"
    and r3: "recorded es \<subseteq> recorded es2"
    and r4: "\<And>a b. (a, b) \<in> recorded es2 \<Longrightarrow> (a, b) \<notin> recorded es \<Longrightarrow> a = cur \<or> lookupI ?st1 a = visitUnseen"
    and r5: "\<forall>b. (cur, b) \<in> recorded es2 \<longrightarrow> finished st2 b"
    and r6: "\<And>x. fresh ?st1 st2 x \<Longrightarrow> \<exists>p. (p, x) \<in> recorded es2"
    and r7: "(\<forall>x. lookupI ?st1 x = visitActive \<longrightarrow> x = cur) \<Longrightarrow>
              (\<forall>s \<in> set (lookupL adj cur). s \<noteq> cur \<longrightarrow> (cur, s) \<in> recorded es2)"
    unfolding dfs_range_post_def by blast+
  have a2: "lookupI st2 cur = visitActive"
    using dfs_step_active[OF r2, of cur] by (simp add: lookupI_update)
  have d1: "dfs_inv adj ?st' es2" using a2 r1 r5 by (rule dfs_inv_mark_done)
  have d2: "dfs_step st ?st'" using u r2 by (rule dfs_step_mark_active)
  have d3: "finished ?st' cur"
    by (simp add: finished_def lookupI_update visitDone_def visitUnseen_def visitActive_def)
  have d5: "lookupI st a = visitUnseen" if "(a, b) \<in> recorded es2" "(a, b) \<notin> recorded es" for a b
    using r4[OF that] u by (auto simp: lookupI_update split: if_splits)
  have d6: "\<exists>p. (p, x) \<in> recorded es2" if "x \<noteq> cur" "fresh st ?st' x" for x
  proof -
    from that have "fresh ?st1 st2 x" by (simp add: fresh_def lookupI_update)
    then show ?thesis by (rule r6)
  qed
  have d7: "\<forall>s \<in> set (lookupL adj cur). s \<noteq> cur \<longrightarrow> (cur, s) \<in> recorded es2"
    if "\<forall>x. lookupI st x \<noteq> visitActive"
  proof (rule r7)
    from that show "\<forall>x. lookupI ?st1 x = visitActive \<longrightarrow> x = cur"
      by (simp add: lookupI_update)
  qed
  from d1 d2 d3 r3 d5 d6 d7 show ?thesis unfolding dfs_post_def by blast
qed

lemma dfs_range_post_Nil:
  assumes "dfs_range_pre adj cur [] st es"
  shows "dfs_range_post adj cur [] st es st es"
  using assms unfolding dfs_range_pre_def dfs_range_post_def
  by (simp add: dfs_step_refl fresh_def)

lemma dfs_pre_tree:
  assumes "dfs_range_pre adj cur (n # rest) st es" "lookupI st n = visitUnseen"
  shows "dfs_pre adj n st (AList.update \<lparr>From = cur, To = n\<rparr> True es)"
proof -
  from assms(1) have "lookupI st cur = visitActive" "n \<in> set (lookupL adj cur)" "dfs_inv adj st es"
    by (auto simp: dfs_range_pre_def)
  from dfs_inv_tree_edge[OF this(1) assms(2) this(2,3)] assms(2) show ?thesis
    by (simp add: dfs_pre_def)
qed

lemma dfs_range_pre_after_tree:
  assumes pre: "dfs_range_pre adj cur (n # rest) st es" and u: "lookupI st n = visitUnseen"
    and post: "dfs_post adj n st (AList.update \<lparr>From = cur, To = n\<rparr> True es) st' es'"
  shows "dfs_range_pre adj cur rest st' es'"
proof -
  from pre have a: "lookupI st cur = visitActive" and sub: "set rest \<subseteq> set (lookupL adj cur)"
    and l: "\<And>b. (cur, b) \<in> recorded es \<Longrightarrow> finished st b"
    by (auto simp: dfs_range_pre_def)
  from post have d1: "dfs_inv adj st' es'" and d2: "dfs_step st st'" and d3: "finished st' n"
    and d5: "\<And>a b. (a, b) \<in> recorded es' \<Longrightarrow>
              (a, b) \<notin> recorded (AList.update \<lparr>From = cur, To = n\<rparr> True es) \<Longrightarrow> lookupI st a = visitUnseen"
    unfolding dfs_post_def by blast+
  have a': "lookupI st' cur = visitActive" using dfs_step_active[OF d2, of cur] a by simp
  have "finished st' b" if cb: "(cur, b) \<in> recorded es'" for b
  proof (cases "(cur, b) \<in> recorded (AList.update \<lparr>From = cur, To = n\<rparr> True es)")
    case True
    then have "b = n \<or> (cur, b) \<in> recorded es" by (auto simp: recorded_update)
    then show ?thesis using d3 l dfs_step_finished[OF d2] by blast
  next
    case False
    from d5[OF cb False] a show ?thesis by (simp add: visitActive_def visitUnseen_def)
  qed
  with a' d1 sub show ?thesis by (simp add: dfs_range_pre_def)
qed

lemma dfs_range_post_tree:
  assumes pre: "dfs_range_pre adj cur (n # rest) st es" and u: "lookupI st n = visitUnseen"
    and post: "dfs_post adj n st (AList.update \<lparr>From = cur, To = n\<rparr> True es) st' es'"
    and rpost: "dfs_range_post adj cur rest st' es' st'' es''"
  shows "dfs_range_post adj cur (n # rest) st es st'' es''"
proof -
  let ?es1 = "AList.update \<lparr>From = cur, To = n\<rparr> True es"
  have e1: "recorded ?es1 = insert (cur, n) (recorded es)" by (rule recorded_update)
  from post have d2: "dfs_step st st'" and d4: "recorded ?es1 \<subseteq> recorded es'"
    and d5: "\<And>a b. (a, b) \<in> recorded es' \<Longrightarrow> (a, b) \<notin> recorded ?es1 \<Longrightarrow> lookupI st a = visitUnseen"
    and d6: "\<And>x. x \<noteq> n \<Longrightarrow> fresh st st' x \<Longrightarrow> \<exists>p. (p, x) \<in> recorded es'"
    unfolding dfs_post_def by blast+
  from rpost have r1: "dfs_inv adj st'' es''" and r2: "dfs_step st' st''"
    and r3: "recorded es' \<subseteq> recorded es''"
    and r4: "\<And>a b. (a, b) \<in> recorded es'' \<Longrightarrow> (a, b) \<notin> recorded es' \<Longrightarrow> a = cur \<or> lookupI st' a = visitUnseen"
    and r5: "\<forall>b. (cur, b) \<in> recorded es'' \<longrightarrow> finished st'' b"
    and r6: "\<And>x. fresh st' st'' x \<Longrightarrow> \<exists>p. (p, x) \<in> recorded es''"
    and r7: "(\<forall>x. lookupI st' x = visitActive \<longrightarrow> x = cur) \<Longrightarrow>
              (\<forall>s \<in> set rest. s \<noteq> cur \<longrightarrow> (cur, s) \<in> recorded es'')"
    unfolding dfs_range_post_def by blast+
  have c2: "dfs_step st st''" using d2 r2 by (rule dfs_step_trans)
  have c3: "recorded es \<subseteq> recorded es''" using e1 d4 r3 by blast
  have keep: "lookupI st' a = visitUnseen \<Longrightarrow> lookupI st a = visitUnseen" for a
    using d2 unfolding dfs_step_def by metis
  have c4: "a = cur \<or> lookupI st a = visitUnseen"
    if "(a, b) \<in> recorded es''" "(a, b) \<notin> recorded es" for a b
  proof (cases "(a, b) \<in> recorded es'")
    case False
    from r4[OF that(1) False] keep show ?thesis by blast
  next
    case True
    show ?thesis
    proof (cases "(a, b) \<in> recorded ?es1")
      case True
      with that(2) e1 show ?thesis by simp
    next
      case False
      from d5[OF True False] show ?thesis by simp
    qed
  qed
  have c6: "\<exists>p. (p, x) \<in> recorded es''" if "fresh st st'' x" for x
  proof (cases "lookupI st' x = visitUnseen")
    case True
    with that have "fresh st' st'' x" by (simp add: fresh_def)
    then show ?thesis by (rule r6)
  next
    case False
    with that have f: "fresh st st' x" by (simp add: fresh_def)
    show ?thesis
    proof (cases "x = n")
      case True
      with e1 d4 r3 show ?thesis by blast
    next
      case False
      from d6[OF False f] r3 show ?thesis by blast
    qed
  qed
  have c7: "\<forall>s \<in> set (n # rest). s \<noteq> cur \<longrightarrow> (cur, s) \<in> recorded es''"
    if "\<forall>x. lookupI st x = visitActive \<longrightarrow> x = cur"
  proof -
    from that have "\<forall>x. lookupI st' x = visitActive \<longrightarrow> x = cur"
      using dfs_step_active[OF d2] by simp
    from r7[OF this] e1 d4 r3 show ?thesis by auto
  qed
  from r1 c2 c3 c4 r5 c6 c7 show ?thesis unfolding dfs_range_post_def by blast
qed

lemma dfs_range_pre_tail:
  "dfs_range_pre adj cur (n # rest) st es \<Longrightarrow> dfs_range_pre adj cur rest st es"
  by (simp add: dfs_range_pre_def)

lemma dfs_range_post_skip:
  assumes pre: "dfs_range_pre adj cur (n # rest) st es" and a: "lookupI st n = visitActive"
    and rpost: "dfs_range_post adj cur rest st es st'' es''"
  shows "dfs_range_post adj cur (n # rest) st es st'' es''"
proof -
  from rpost have r7: "(\<forall>x. lookupI st x = visitActive \<longrightarrow> x = cur) \<Longrightarrow>
              (\<forall>s \<in> set rest. s \<noteq> cur \<longrightarrow> (cur, s) \<in> recorded es'')"
    unfolding dfs_range_post_def by blast
  have "\<forall>s \<in> set (n # rest). s \<noteq> cur \<longrightarrow> (cur, s) \<in> recorded es''"
    if h: "\<forall>x. lookupI st x = visitActive \<longrightarrow> x = cur"
  proof -
    from h a have "n = cur" by blast
    with r7[OF h] show ?thesis by simp
  qed
  with rpost show ?thesis unfolding dfs_range_post_def by blast
qed

lemma dfs_range_pre_cross:
  assumes pre: "dfs_range_pre adj cur (n # rest) st es" and f: "finished st n"
  shows "dfs_range_pre adj cur rest st (AList.update \<lparr>From = cur, To = n\<rparr> True es)"
proof -
  from pre have a: "lookupI st cur = visitActive" and n: "n \<in> set (lookupL adj cur)"
    and i: "dfs_inv adj st es" and sub: "set rest \<subseteq> set (lookupL adj cur)"
    and l: "\<forall>b. (cur, b) \<in> recorded es \<longrightarrow> finished st b"
    by (auto simp: dfs_range_pre_def)
  from dfs_inv_cross_edge[OF a f n i] a sub l f show ?thesis
    by (auto simp: dfs_range_pre_def recorded_update)
qed

lemma dfs_range_post_cross:
  assumes rpost: "dfs_range_post adj cur rest st (AList.update \<lparr>From = cur, To = n\<rparr> True es) st'' es''"
  shows "dfs_range_post adj cur (n # rest) st es st'' es''"
proof -
  let ?es1 = "AList.update \<lparr>From = cur, To = n\<rparr> True es"
  have e1: "recorded ?es1 = insert (cur, n) (recorded es)" by (rule recorded_update)
  from rpost have r1: "dfs_inv adj st'' es''" and r2: "dfs_step st st''"
    and r3: "recorded ?es1 \<subseteq> recorded es''"
    and r4: "\<And>a b. (a, b) \<in> recorded es'' \<Longrightarrow> (a, b) \<notin> recorded ?es1 \<Longrightarrow> a = cur \<or> lookupI st a = visitUnseen"
    and r5: "\<forall>b. (cur, b) \<in> recorded es'' \<longrightarrow> finished st'' b"
    and r6: "\<forall>x. fresh st st'' x \<longrightarrow> (\<exists>p. (p, x) \<in> recorded es'')"
    and r7: "(\<forall>x. lookupI st x = visitActive \<longrightarrow> x = cur) \<Longrightarrow>
              (\<forall>s \<in> set rest. s \<noteq> cur \<longrightarrow> (cur, s) \<in> recorded es'')"
    unfolding dfs_range_post_def by blast+
  have c3: "recorded es \<subseteq> recorded es''" using e1 r3 by blast
  have c4: "a = cur \<or> lookupI st a = visitUnseen"
    if "(a, b) \<in> recorded es''" "(a, b) \<notin> recorded es" for a b
  proof (cases "(a, b) \<in> recorded ?es1")
    case True
    with that(2) e1 show ?thesis by simp
  next
    case False
    from r4[OF that(1) False] show ?thesis .
  qed
  have c7: "\<forall>s \<in> set (n # rest). s \<noteq> cur \<longrightarrow> (cur, s) \<in> recorded es''"
    if "\<forall>x. lookupI st x = visitActive \<longrightarrow> x = cur"
    using r7[OF that] e1 r3 by auto
  from r1 r2 c3 c4 r5 r6 c7 show ?thesis unfolding dfs_range_post_def by blast
qed

lemma dfs_correct:
  "dfs_pre adj cur st es \<Longrightarrow>
     dfs_post adj cur st es (fst (dfs adj cur st es)) (snd (dfs adj cur st es))"
  "dfs_range_pre adj cur ns st es \<Longrightarrow>
     dfs_range_post adj cur ns st es (fst (dfs_range adj cur ns st es)) (snd (dfs_range adj cur ns st es))"
proof (induct adj cur st es and adj cur ns st es rule: dfs_dfs_range.induct)
  case (1 adj cur st es)
  let ?st1 = "AList.update cur visitActive st"
  obtain st2 es2 where r: "dfs_range adj cur (lookupL adj cur) ?st1 es = (st2, es2)" by force
  from 1(2) have u: "lookupI st cur = visitUnseen" and i: "dfs_inv adj st es"
    by (simp_all add: dfs_pre_def)
  have "dfs_range_pre adj cur (lookupL adj cur) ?st1 es"
    unfolding dfs_range_pre_def
  proof (intro conjI allI impI)
    show "lookupI ?st1 cur = visitActive" by (simp add: lookupI_update)
    show "dfs_inv adj ?st1 es" using u i by (rule dfs_inv_mark_active)
    show "set (lookupL adj cur) \<subseteq> set (lookupL adj cur)" by simp
    fix b assume "(cur, b) \<in> recorded es"
    from dfs_inv_seen[OF i this] u show "finished ?st1 b" by simp
  qed
  from 1(1)[OF this] r have "dfs_range_post adj cur (lookupL adj cur) ?st1 es st2 es2" by simp
  from dfs_post_from_range[OF 1(2) this] show ?case unfolding dfs_unfold[OF r] by simp
next
  case (2 adj cur st es)
  then show ?case by (simp add: dfs_range_Nil dfs_range_post_Nil)
next
  case (3 adj cur n rest st es)
  let ?es1 = "AList.update \<lparr>From = cur, To = n\<rparr> True es"
  show ?case
  proof (cases "lookupI st n = visitUnseen")
    case True
    obtain st' es' where d: "dfs adj n st ?es1 = (st', es')" by force
    have "dfs_post adj n st ?es1 st' es'"
      using 3(1)[OF True dfs_pre_tree[OF 3(5) True]] d by simp
    moreover from dfs_range_pre_after_tree[OF 3(5) True this]
    have "dfs_range_post adj cur rest st' es'
            (fst (dfs_range adj cur rest st' es')) (snd (dfs_range adj cur rest st' es'))"
      by (rule 3(2)[OF True d[symmetric]])
    ultimately show ?thesis unfolding dfs_range_unseen[OF True d]
      by (rule dfs_range_post_tree[OF 3(5) True])
  next
    case False
    show ?thesis
    proof (cases "lookupI st n = visitActive")
      case True
      have "dfs_range_post adj cur rest st es
              (fst (dfs_range adj cur rest st es)) (snd (dfs_range adj cur rest st es))"
        using 3(3)[OF False True dfs_range_pre_tail[OF 3(5)]] .
      then show ?thesis unfolding dfs_range_active[OF True]
        by (rule dfs_range_post_skip[OF 3(5) True])
    next
      case na: False
      with False have f: "finished st n" by (simp add: finished_def)
      have "dfs_range_post adj cur rest st ?es1
              (fst (dfs_range adj cur rest st ?es1)) (snd (dfs_range adj cur rest st ?es1))"
        using 3(4)[OF False na dfs_range_pre_cross[OF 3(5) f]] .
      then show ?thesis unfolding dfs_range_finished[OF f]
        by (rule dfs_range_post_cross)
    qed
  qed
qed

subsection \<open>Maps that only hold true\<close>

lemma set_update_subset: "set (AList.update k v al) \<subseteq> insert (k, v) (set al)"
  by (induction al) auto

lemma all_true_update: "all_true m \<Longrightarrow> all_true (AList.update k True m)"
  using set_update_subset[of k True m] unfolding all_true_def by blast

lemma all_true_keys: "all_true m \<Longrightarrow> fst ` set m = members m"
proof
  assume a: "all_true m"
  show "fst ` set m \<subseteq> members m"
  proof
    fix k assume "k \<in> fst ` set m"
    then obtain b where "map_of m k = Some b" by (cases "map_of m k") (auto simp: map_of_eq_None_iff)
    moreover from this have "(k, b) \<in> set m" by (rule map_of_SomeD)
    ultimately show "k \<in> members m" using a by (auto simp: all_true_def members_def lookupB_def)
  qed
  show "members m \<subseteq> fst ` set m"
  proof
    fix k assume "k \<in> members m"
    then have "map_of m k \<noteq> None" by (auto simp: members_def lookupB_def split: option.splits)
    then show "k \<in> fst ` set m" by (simp add: map_of_eq_None_iff)
  qed
qed

subsection \<open>The forward search\<close>

lemma forward_main_spec:
  "forward_main ms r f q = (f', q') \<Longrightarrow>
     members f' = members f \<union> {m \<in> set ms. lookupB r m} \<and>
     set q' = set q \<union> {m \<in> set ms. lookupB r m} \<and> (all_true f \<longrightarrow> all_true f')"
proof (induction ms arbitrary: f q)
  case Nil
  then show ?case by simp
next
  case (Cons m ms)
  show ?case
  proof (cases "lookupB r m")
    case True
    with Cons.prems have "forward_main ms r (AList.update m True f) (q @ [m]) = (f', q')" by simp
    from Cons.IH[OF this] True show ?thesis
      by (auto simp: members_def lookupB_update all_true_update)
  next
    case False
    with Cons.prems have "forward_main ms r f q = (f', q')" by simp
    from Cons.IH[OF this] False show ?thesis by auto
  qed
qed

lemma forward_nexts_all_true:
  "forward_nexts ns r f q = (f', q') \<Longrightarrow> all_true f \<Longrightarrow> all_true f'"
  by (induction ns arbitrary: f q) (auto simp: all_true_update split: if_splits)

lemma forward_queue_Nil: "forward_queue g r f [] = f"
  by (simp add: forward_queue.simps)

lemma forward_queue_Cons:
  "forward_nexts (lookupL g cur) r f queue = (f', q') \<Longrightarrow>
   forward_queue g r f (cur # queue) = forward_queue g r f' q'"
  by (simp add: forward_queue.simps)

lemma forward_queue_all_true: "all_true f \<Longrightarrow> all_true (forward_queue g r f q)"
proof (induction g r f q rule: forward_queue.induct)
  case (1 g r f)
  then show ?case by (simp add: forward_queue_Nil)
next
  case (2 g r f cur queue)
  obtain f' q' where b: "forward_nexts (lookupL g cur) r f queue = (f', q')" by force
  from forward_nexts_all_true[OF b 2(2)] show ?case
    unfolding forward_queue_Cons[OF b] by (rule 2(1)[OF b[symmetric]])
qed

lemma forward_queue_keeps: "members f \<subseteq> members (forward_queue g r f q)"
proof (induction g r f q rule: forward_queue.induct)
  case (1 g r f)
  show ?case by (simp add: forward_queue_Nil)
next
  case (2 g r f cur queue)
  obtain f' q' where b: "forward_nexts (lookupL g cur) r f queue = (f', q')" by force
  from 2[OF b[symmetric]] forward_nexts_members[OF b]
  show ?case unfolding forward_queue_Cons[OF b] by auto
qed

lemma forward_queue_sound:
  "set q \<subseteq> members f \<Longrightarrow> members f \<subseteq> members r \<Longrightarrow> x \<in> members (forward_queue g r f q) \<Longrightarrow>
     \<exists>y \<in> members f. (y, x) \<in> (within g r)\<^sup>*"
proof (induction g r f q rule: forward_queue.induct)
  case (1 g r f)
  then show ?case by (auto simp: forward_queue_Nil)
next
  case (2 g r f cur queue)
  obtain f' q' where b: "forward_nexts (lookupL g cur) r f queue = (f', q')" by force
  note m = forward_nexts_members[OF b]
  from forward_nexts_queue[OF b] obtain news where n: "q' = queue @ news"
    "set news = {n \<in> set (lookupL g cur). lookupB r n} - members f" by blast
  from 2(2) m n have "set q' \<subseteq> members f'" by auto
  moreover from 2(3) m have "members f' \<subseteq> members r" by (auto simp: members_def)
  moreover from 2(4) have "x \<in> members (forward_queue g r f' q')" unfolding forward_queue_Cons[OF b] .
  ultimately obtain y where y: "y \<in> members f'" "(y, x) \<in> (within g r)\<^sup>*"
    using 2(1)[OF b[symmetric]] by blast
  show ?case
  proof (cases "y \<in> members f")
    case True
    with y show ?thesis by blast
  next
    case False
    with y(1) m have "y \<in> set (lookupL g cur)" "lookupB r y" by auto
    moreover from 2(2,3) have c: "cur \<in> members f" "lookupB r cur" by (auto simp: members_def)
    ultimately have "(cur, y) \<in> within g r" by (simp add: within_def edge_def)
    from this y(2) have "(cur, x) \<in> (within g r)\<^sup>*" by (rule converse_rtrancl_into_rtrancl)
    with c(1) show ?thesis by blast
  qed
qed

lemma forward_queue_closed:
  "set q \<subseteq> members f \<Longrightarrow>
   \<forall>x \<in> members f - set q. \<forall>y \<in> set (lookupL g x). lookupB r y \<longrightarrow> y \<in> members f \<Longrightarrow>
   \<forall>x \<in> members (forward_queue g r f q). \<forall>y \<in> set (lookupL g x). lookupB r y \<longrightarrow>
       y \<in> members (forward_queue g r f q)"
proof (induction g r f q rule: forward_queue.induct)
  case (1 g r f)
  then show ?case by (simp add: forward_queue_Nil)
next
  case (2 g r f cur queue)
  obtain f' q' where b: "forward_nexts (lookupL g cur) r f queue = (f', q')" by force
  note m = forward_nexts_members[OF b]
  from forward_nexts_queue[OF b] obtain news where n: "q' = queue @ news"
    "set news = {n \<in> set (lookupL g cur). lookupB r n} - members f" by blast
  from 2(2) m n have q': "set q' \<subseteq> members f'" by auto
  have "\<forall>x \<in> members f' - set q'. \<forall>y \<in> set (lookupL g x). lookupB r y \<longrightarrow> y \<in> members f'"
  proof (intro ballI impI)
    fix x y assume x: "x \<in> members f' - set q'" and y: "y \<in> set (lookupL g x)" "lookupB r y"
    from x m n have xr: "x \<in> members f" "x \<notin> set queue" by auto
    show "y \<in> members f'"
    proof (cases "x = cur")
      case True
      with m y show ?thesis by auto
    next
      case False
      with xr have "x \<in> members f - set (cur # queue)" by simp
      with 2(3) y have "y \<in> members f" by blast
      with m show ?thesis by auto
    qed
  qed
  with q' show ?case unfolding forward_queue_Cons[OF b]
    using 2(1)[OF b[symmetric]] by blast
qed

lemma within_closed:
  assumes "(m, x) \<in> (within g r)\<^sup>*" "m \<in> S"
    and "\<forall>a \<in> S. \<forall>b \<in> set (lookupL g a). lookupB r b \<longrightarrow> b \<in> S"
  shows "x \<in> S"
  using assms by (induction rule: rtrancl_induct) (auto simp: within_def edge_def)

lemma members_Nil: "members [] = {}"
  by (simp add: members_def lookupB_def)

lemma forward_set_spec:
  "members (forward_set ms g r) = {x. \<exists>m \<in> set ms. lookupB r m \<and> (m, x) \<in> (within g r)\<^sup>*}"
  "all_true (forward_set ms g r)"
  "\<forall>x \<in> members (forward_set ms g r). \<forall>y \<in> set (lookupL g x). lookupB r y \<longrightarrow> y \<in> members (forward_set ms g r)"
  "members (forward_set ms g r) \<subseteq> members r"
proof -
  obtain f0 q0 where s: "forward_main ms r [] [] = (f0, q0)" by force
  from forward_main_spec[OF s] have f0: "members f0 = {m \<in> set ms. lookupB r m}"
    and q0: "set q0 = members f0" and t0: "all_true f0"
    by (auto simp: members_Nil all_true_def)
  let ?F = "forward_queue g r f0 q0"
  have F: "forward_set ms g r = ?F" by (simp add: forward_set_def s)
  have sub: "members f0 \<subseteq> members r" using f0 by (auto simp: members_def)
  have closed: "\<forall>x \<in> members ?F. \<forall>y \<in> set (lookupL g x). lookupB r y \<longrightarrow> y \<in> members ?F"
    by (rule forward_queue_closed) (simp_all add: q0)
  have sound: "\<exists>y \<in> members f0. (y, x) \<in> (within g r)\<^sup>*" if "x \<in> members ?F" for x
    using that sub by (intro forward_queue_sound[of q0 f0 r x g]) (simp_all add: q0)
  have "members ?F = {x. \<exists>m \<in> set ms. lookupB r m \<and> (m, x) \<in> (within g r)\<^sup>*}"
  proof (intro set_eqI iffI)
    fix x assume "x \<in> members ?F"
    from sound[OF this] f0 show "x \<in> {x. \<exists>m \<in> set ms. lookupB r m \<and> (m, x) \<in> (within g r)\<^sup>*}"
      by auto
  next
    fix x assume "x \<in> {x. \<exists>m \<in> set ms. lookupB r m \<and> (m, x) \<in> (within g r)\<^sup>*}"
    then obtain m where m: "m \<in> set ms" "lookupB r m" "(m, x) \<in> (within g r)\<^sup>*" by blast
    with f0 forward_queue_keeps[of f0 g r q0] have "m \<in> members ?F" by auto
    from within_closed[OF m(3) this closed] show "x \<in> members ?F" .
  qed
  then show "members (forward_set ms g r) = {x. \<exists>m \<in> set ms. lookupB r m \<and> (m, x) \<in> (within g r)\<^sup>*}"
    by (simp add: F)
  show "all_true (forward_set ms g r)" unfolding F using t0 by (rule forward_queue_all_true)
  show "\<forall>x \<in> members (forward_set ms g r). \<forall>y \<in> set (lookupL g x). lookupB r y \<longrightarrow> y \<in> members (forward_set ms g r)"
    unfolding F by (rule closed)
  show "members (forward_set ms g r) \<subseteq> members r"
  proof
    fix x assume "x \<in> members (forward_set ms g r)"
    then obtain y where y: "y \<in> members f0" "(y, x) \<in> (within g r)\<^sup>*" using sound unfolding F by blast
    from y(2) show "x \<in> members r"
    proof (cases rule: rtranclE)
      case base
      with y(1) sub show ?thesis by auto
    next
      case (step z)
      then show ?thesis by (simp add: within_def members_def)
    qed
  qed
qed

subsection \<open>The restricted adjacency list\<close>

lemma adj_tos_lookup:
  "set (lookupL (adj_tos a tos ns adj) x) =
     set (lookupL adj x) \<union> (if x = a then {y \<in> set tos. lookupB ns y} else {})"
proof (induction tos arbitrary: adj)
  case Nil
  show ?case by simp
next
  case (Cons t tos)
  show ?case
  proof (cases "lookupB ns t")
    case True
    then have eq: "adj_tos a (t # tos) ns adj = adj_tos a tos ns (AList.update a (lookupL adj a @ [t]) adj)"
      by simp
    show ?thesis unfolding eq Cons.IH using True by (auto simp: lookupL_update)
  next
    case False
    then have eq: "adj_tos a (t # tos) ns adj = adj_tos a tos ns adj" by simp
    show ?thesis unfolding eq Cons.IH using False by auto
  qed
qed

lemma sort_Strings_at_lookup: "set (lookupL (sort_Strings_at a adj) x) = set (lookupL adj x)"
proof (cases "map_of adj a")
  case None
  then show ?thesis by (simp add: sort_Strings_at_def)
next
  case (Some tos)
  then have "lookupL adj a = tos" by (simp add: lookupL_def)
  with Some show ?thesis by (auto simp: sort_Strings_at_def lookupL_update)
qed

lemma adj_nodes_lookup:
  "set (lookupL (adj_nodes nodes g ns adj) x) =
     set (lookupL adj x) \<union> (if x \<in> set nodes then {y \<in> set (lookupL g x). lookupB ns y} else {})"
proof (induction nodes arbitrary: adj)
  case Nil
  show ?case by simp
next
  case (Cons n nodes)
  have "set (lookupL (sort_Strings_at n (adj_tos n (lookupL g n) ns adj)) x) =
          set (lookupL adj x) \<union> (if x = n then {y \<in> set (lookupL g n). lookupB ns y} else {})"
    by (simp only: sort_Strings_at_lookup adj_tos_lookup)
  with Cons.IH[of "sort_Strings_at n (adj_tos n (lookupL g n) ns adj)"] show ?case by auto
qed

subsection \<open>The loop over the entry points\<close>

lemma covered_mono: "covered adj es x \<Longrightarrow> recorded es \<subseteq> recorded es' \<Longrightarrow> covered adj es' x"
  unfolding covered_def by blast

lemma dfs_nodes_correct:
  "dfs_nodes_inv adj st es \<Longrightarrow>
     dfs_nodes_inv adj (fst (dfs_nodes adj nodes st es)) (snd (dfs_nodes adj nodes st es)) \<and>
     dfs_step st (fst (dfs_nodes adj nodes st es))"
proof (induction nodes arbitrary: st es)
  case Nil
  then show ?case by (simp add: dfs_step_refl)
next
  case (Cons n nodes)
  show ?case
  proof (cases "lookupI st n = visitUnseen")
    case False
    with Cons show ?thesis by simp
  next
    case True
    obtain st' es' where d: "dfs adj n st es = (st', es')" by force
    from Cons.prems have i: "dfs_inv adj st es" and na: "\<forall>x. lookupI st x \<noteq> visitActive"
      and cov: "\<And>x. lookupI st x \<noteq> visitUnseen \<Longrightarrow> covered adj es x"
      by (auto simp: dfs_nodes_inv_def)
    from True i have "dfs_pre adj n st es" by (simp add: dfs_pre_def)
    from dfs_correct(1)[OF this] d have post: "dfs_post adj n st es st' es'" by simp
    then have d1: "dfs_inv adj st' es'" and d2: "dfs_step st st'" and d4: "recorded es \<subseteq> recorded es'"
      and d6: "\<And>x. x \<noteq> n \<Longrightarrow> fresh st st' x \<Longrightarrow> \<exists>p. (p, x) \<in> recorded es'"
      and d7: "\<forall>s \<in> set (lookupL adj n). s \<noteq> n \<longrightarrow> (n, s) \<in> recorded es'"
      using na unfolding dfs_post_def by blast+
    have na': "\<forall>x. lookupI st' x \<noteq> visitActive" using dfs_step_active[OF d2] na by simp
    have "covered adj es' x" if "lookupI st' x \<noteq> visitUnseen" for x
    proof (cases "lookupI st x = visitUnseen")
      case False
      from covered_mono[OF cov[OF False] d4] show ?thesis .
    next
      case u: True
      show ?thesis
      proof (cases "x = n")
        case True
        with d7 show ?thesis by (simp add: covered_def)
      next
        case False
        from d6[OF False] u that show ?thesis by (auto simp: covered_def fresh_def)
      qed
    qed
    with d1 na' have "dfs_nodes_inv adj st' es'" by (simp add: dfs_nodes_inv_def)
    from Cons.IH[OF this] d2 True d show ?thesis
      by (auto intro: dfs_step_trans)
  qed
qed

lemma dfs_nodes_all_seen:
  "dfs_nodes_inv adj st es \<Longrightarrow> x \<in> set nodes \<Longrightarrow> lookupI (fst (dfs_nodes adj nodes st es)) x \<noteq> visitUnseen"
proof (induction nodes arbitrary: st es)
  case Nil
  then show ?case by simp
next
  case (Cons n nodes)
  obtain st' es' where d: "dfs adj n st es = (st', es')" by force
  show ?case
  proof (cases "lookupI st n = visitUnseen")
    case False
    show ?thesis
    proof (cases "x = n")
      case True
      from dfs_nodes_correct[OF Cons.prems(1), of nodes] have "dfs_step st (fst (dfs_nodes adj nodes st es))"
        by simp
      with False True show ?thesis using False by (simp add: dfs_step_def)
    next
      case xn: False
      with Cons False show ?thesis by simp
    qed
  next
    case True
    from Cons.prems have i: "dfs_inv adj st es" by (simp add: dfs_nodes_inv_def)
    with True have "dfs_pre adj n st es" by (simp add: dfs_pre_def)
    from dfs_correct(1)[OF this] d have post: "dfs_post adj n st es st' es'" by simp
    have inv': "dfs_nodes_inv adj st' es'"
      using dfs_nodes_correct[OF Cons.prems(1), of "[n]"] True d by simp
    show ?thesis
    proof (cases "x = n")
      case xn: True
      from post have "finished st' n" by (simp add: dfs_post_def)
      then have "lookupI st' n \<noteq> visitUnseen" by (simp add: finished_def)
      moreover from dfs_nodes_correct[OF inv', of nodes] have "dfs_step st' (fst (dfs_nodes adj nodes st' es'))"
        by simp
      ultimately show ?thesis using True d xn by (simp add: dfs_step_def)
    next
      case False
      with Cons.prems(2) have "x \<in> set nodes" by simp
      from Cons.IH[OF inv' this] True d show ?thesis by simp
    qed
  qed
qed

lemma dfs_nodes_inv_init: "dfs_nodes_inv adj [] []"
  by (simp add: dfs_nodes_inv_def dfs_inv_def recorded_Nil lookupI_Nil visitActive_def visitUnseen_def wf_acyclic)

lemma computePathSubgraph_unfold:
  "computePathSubgraph ms g r =
     (forward_set ms g r,
      snd (dfs_nodes (adj_nodes (sort (map fst (forward_set ms g r))) g (forward_set ms g r) [])
             (sort (map fst (forward_set ms g r))) [] []))"
  by (simp add: computePathSubgraph_def forward_set_def Let_def split: prod.splits)

lemma computePathSubgraph_nodes:
  "members (fst (computePathSubgraph ms g r)) = {x. \<exists>m \<in> set ms. lookupB r m \<and> (m, x) \<in> (within g r)\<^sup>*}"
  by (simp add: computePathSubgraph_unfold forward_set_spec(1))

lemma computePathSubgraph_dfs:
  fixes ms g r
  defines "ns \<equiv> forward_set ms g r"
  defines "nodes \<equiv> sort (map fst ns)"
  defines "adj \<equiv> adj_nodes nodes g ns []"
  defines "es \<equiv> snd (computePathSubgraph ms g r)"
  shows "acyclic (recorded es)"
    and "\<And>a b. (a, b) \<in> recorded es \<Longrightarrow> a \<in> members ns \<and> b \<in> members ns \<and> edge g a b"
    and "\<And>n. n \<in> members ns \<Longrightarrow> covered adj es n"
    and "\<And>n s. n \<in> members ns \<Longrightarrow> s \<in> members ns \<Longrightarrow> edge g n s \<Longrightarrow> s \<in> set (lookupL adj n)"
proof -
  have es: "es = snd (dfs_nodes adj nodes [] [])"
    by (simp add: es_def computePathSubgraph_unfold adj_def nodes_def ns_def)
  have nodes: "set nodes = members ns"
    using all_true_keys[OF forward_set_spec(2)[of ms g r]] by (simp add: nodes_def ns_def)
  have adj: "set (lookupL adj x) = (if x \<in> members ns then {y \<in> set (lookupL g x). lookupB ns y} else {})" for x
    by (simp add: adj_def adj_nodes_lookup lookupL_Nil nodes)
  from dfs_nodes_correct[OF dfs_nodes_inv_init, of adj nodes]
  have inv: "dfs_nodes_inv adj (fst (dfs_nodes adj nodes [] [])) es" by (simp add: es)
  then have di: "dfs_inv adj (fst (dfs_nodes adj nodes [] [])) es" by (simp add: dfs_nodes_inv_def)
  from di show "acyclic (recorded es)" by (rule dfs_inv_acyclic)
  show "a \<in> members ns \<and> b \<in> members ns \<and> edge g a b" if "(a, b) \<in> recorded es" for a b
  proof -
    from dfs_inv_adj[OF di that] have "b \<in> set (lookupL adj a)" .
    then show ?thesis unfolding adj by (auto simp: members_def edge_def split: if_splits)
  qed
  show "covered adj es n" if "n \<in> members ns" for n
  proof -
    from that nodes have "n \<in> set nodes" by simp
    from dfs_nodes_all_seen[OF dfs_nodes_inv_init this, of adj]
    have "lookupI (fst (dfs_nodes adj nodes [] [])) n \<noteq> visitUnseen" .
    with inv show ?thesis by (simp add: dfs_nodes_inv_def)
  qed
  show "s \<in> set (lookupL adj n)" if "n \<in> members ns" "s \<in> members ns" "edge g n s" for n s
    using that unfolding adj by (simp add: members_def edge_def)
qed

lemma first_step_away:
  assumes "(n, t) \<in> E\<^sup>*" "n \<noteq> t"
  shows "\<exists>s. (n, s) \<in> E \<and> s \<noteq> n \<and> (s, t) \<in> E\<^sup>*"
  using assms
proof (induction rule: rtrancl_induct)
  case base
  then show ?case by simp
next
  case (step y z)
  show ?case
  proof (cases "y = n")
    case True
    with step.hyps(2) step.prems show ?thesis by blast
  next
    case False
    then have "n \<noteq> y" by simp
    from step.IH[OF this] obtain s where "(n, s) \<in> E" "s \<noteq> n" "(s, y) \<in> E\<^sup>*" by blast
    with step.hyps(2) show ?thesis by (meson rtrancl_into_rtrancl)
  qed
qed

lemma cycle_subgraph:
  "computePathSubgraph [''A''] cycle_graph (computeReachableToTarget ''D'' cycle_graph) =
     ([(''A'', True), (''B'', True), (''C'', True), (''D'', True)],
      [(\<lparr>From = ''A'', To = ''B''\<rparr>, True), (\<lparr>From = ''B'', To = ''C''\<rparr>, True),
       (\<lparr>From = ''C'', To = ''D''\<rparr>, True)])"
  by code_simp

section \<open>getLongestChain on acyclic graphs\<close>

lemma getLongestChain_memo:
  "map_of m n = Some c \<Longrightarrow> getLongestChain n g chain m = (c, m)"
  by (simp add: getLongestChain.simps)

lemma getLongestChain_leaf_eq:
  "map_of m n = None \<Longrightarrow> lookupL g n = [] \<Longrightarrow>
   getLongestChain n g chain m = ([n], AList.update n [n] m)"
  by (simp add: getLongestChain.simps)

lemma getLongestChain_cut:
  "map_of m n = None \<Longrightarrow> lookupL g n \<noteq> [] \<Longrightarrow> contains chain n \<Longrightarrow>
   getLongestChain n g chain m = ([], m)"
  by (simp add: getLongestChain.simps)

lemma getLongestChain_descend:
  "map_of m n = None \<Longrightarrow> lookupL g n \<noteq> [] \<Longrightarrow> \<not> contains chain n \<Longrightarrow>
   getLongestChain_range (lookupL g n) g (chain @ [n]) m [] = (best, m') \<Longrightarrow>
   getLongestChain n g chain m = (n # best, AList.update n (n # best) m')"
  by (simp add: getLongestChain.simps)

lemma getLongestChain_range_Nil: "getLongestChain_range [] g chain m best = (best, m)"
  by (simp add: getLongestChain_range.simps)

lemma getLongestChain_range_Cons:
  "getLongestChain d g chain m = (dc, m1) \<Longrightarrow>
   getLongestChain_range (d # rest) g chain m best =
     getLongestChain_range rest g chain m1 (if length dc > length best then dc else best)"
  by (simp add: getLongestChain_range.simps)

lemma memo_ok_update: "memo_ok g m \<Longrightarrow> longest g n c \<Longrightarrow> memo_ok g (AList.update n c m)"
  by (simp add: memo_ok_def update_conv')

lemma longest_leaf:
  assumes "lookupL g n = []"
  shows "longest g n [n]"
proof -
  have "length p \<le> 1" if "p \<noteq> []" "hd p = n" "successively (edge g) p" for p
  proof (cases p)
    case Nil
    with that show ?thesis by simp
  next
    case (Cons a q)
    show ?thesis
    proof (cases q)
      case Nil
      with Cons show ?thesis by simp
    next
      case (Cons b q')
      with \<open>p = a # q\<close> that assms show ?thesis by (simp add: edge_def)
    qed
  qed
  then show ?thesis by (simp add: longest_def)
qed

lemma longest_step:
  assumes best: "getLongestChain_range_ok g (lookupL g n) [] best" and ne: "lookupL g n \<noteq> []"
  shows "longest g n (n # best)"
proof -
  from ne obtain d where d: "d \<in> set (lookupL g n)" by (cases "lookupL g n") auto
  from best d have "length [d] \<le> length best"
    unfolding getLongestChain_range_ok_def by (metis hd_conv_nth list.sel(1) list.simps(3) successively.simps(2))
  then have bne: "best \<noteq> []" by auto
  with best obtain d' where d': "d' \<in> set (lookupL g n)" "longest g d' best"
    unfolding getLongestChain_range_ok_def by blast
  then have s: "successively (edge g) (n # best)"
    using bne by (simp add: successively_Cons longest_def edge_def)
  have "length p \<le> length (n # best)" if p: "p \<noteq> []" "hd p = n" "successively (edge g) p" for p
  proof (cases p)
    case Nil
    with p show ?thesis by simp
  next
    case (Cons a q)
    show ?thesis
    proof (cases "q = []")
      case True
      with Cons show ?thesis by simp
    next
      case False
      with Cons p have "hd q \<in> set (lookupL g n)" "successively (edge g) q"
        by (simp_all add: successively_Cons edge_def)
      with best False have "length q \<le> length best" unfolding getLongestChain_range_ok_def by blast
      with Cons show ?thesis by simp
    qed
  qed
  with s show ?thesis by (simp add: longest_def)
qed

lemma getLongestChain_acyclic:
  "acyclic (edges g) \<Longrightarrow> memo_ok g m \<Longrightarrow> \<forall>a \<in> set chain. (a, n) \<in> (edges g)\<^sup>+ \<Longrightarrow>
     longest g n (fst (getLongestChain n g chain m)) \<and> memo_ok g (snd (getLongestChain n g chain m))"
  "acyclic (edges g) \<Longrightarrow> memo_ok g m \<Longrightarrow> \<forall>a \<in> set chain. \<forall>d \<in> set ns. (a, d) \<in> (edges g)\<^sup>+ \<Longrightarrow>
     getLongestChain_range_ok g ns best (fst (getLongestChain_range ns g chain m best)) \<and>
     memo_ok g (snd (getLongestChain_range ns g chain m best))"
proof (induct n g chain m and ns g chain m best rule: getLongestChain_getLongestChain_range.induct)
  case (1 n g chain m)
  show ?case
  proof (cases "map_of m n")
    case (Some c)
    with 1(3) have "longest g n c" by (simp add: memo_ok_def)
    with 1(3) show ?thesis unfolding getLongestChain_memo[OF Some] by simp
  next
    case None
    show ?thesis
    proof (cases "lookupL g n = []")
      case True
      from longest_leaf[OF True] memo_ok_update[OF 1(3)] show ?thesis
        unfolding getLongestChain_leaf_eq[OF None True] by simp
    next
      case False
      have nc: "\<not> contains chain n"
      proof
        assume "contains chain n"
        then have "n \<in> set chain" by (simp add: contains_iff)
        with 1(4) have "(n, n) \<in> (edges g)\<^sup>+" by blast
        with 1(2) show False by (simp add: acyclic_def)
      qed
      obtain best m' where r: "getLongestChain_range (lookupL g n) g (chain @ [n]) m [] = (best, m')"
        by force
      have pre: "\<forall>a \<in> set (chain @ [n]). \<forall>d \<in> set (lookupL g n). (a, d) \<in> (edges g)\<^sup>+"
      proof (intro ballI)
        fix a d assume a: "a \<in> set (chain @ [n])" and d: "d \<in> set (lookupL g n)"
        then have e: "(n, d) \<in> edges g" by (simp add: edges_def edge_def)
        show "(a, d) \<in> (edges g)\<^sup>+"
        proof (cases "a = n")
          case True
          with e show ?thesis by blast
        next
          case False
          with a 1(4) have "(a, n) \<in> (edges g)\<^sup>+" by auto
          from this e show ?thesis by (rule trancl_into_trancl)
        qed
      qed
      have l0: "length (lookupL g n) \<noteq> 0" using False by simp
      from 1(1)[OF None l0 nc 1(2,3) pre] r
      have "getLongestChain_range_ok g (lookupL g n) [] best" "memo_ok g m'" by simp_all
      from longest_step[OF this(1) False] memo_ok_update[OF this(2)] show ?thesis
        unfolding getLongestChain_descend[OF None False nc r] by simp
    qed
  qed
next
  case (2 g chain m best)
  then show ?case by (simp add: getLongestChain_range_Nil getLongestChain_range_ok_def)
next
  case (3 d rest g chain m best)
  obtain dc m1 where c: "getLongestChain d g chain m = (dc, m1)" by force
  let ?b1 = "if length dc > length best then dc else best"
  from 3(5) have "\<forall>a \<in> set chain. (a, d) \<in> (edges g)\<^sup>+" by simp
  from 3(1)[OF 3(3,4) this] c have ld: "longest g d dc" and m1: "memo_ok g m1" by simp_all
  from 3(5) have "\<forall>a \<in> set chain. \<forall>d \<in> set rest. (a, d) \<in> (edges g)\<^sup>+" by simp
  from 3(2)[OF c[symmetric] 3(3) m1 this]
  have r: "getLongestChain_range_ok g rest ?b1 (fst (getLongestChain_range rest g chain m1 ?b1))"
    and mo: "memo_ok g (snd (getLongestChain_range rest g chain m1 ?b1))" by simp_all
  let ?b' = "fst (getLongestChain_range rest g chain m1 ?b1)"
  from r have r1: "length ?b1 \<le> length ?b'" and r2: "?b' = ?b1 \<or> (\<exists>d \<in> set rest. longest g d ?b')"
    and r3: "\<And>d' p. d' \<in> set rest \<Longrightarrow> p \<noteq> [] \<Longrightarrow> hd p = d' \<Longrightarrow> successively (edge g) p
               \<Longrightarrow> length p \<le> length ?b'"
    unfolding getLongestChain_range_ok_def by blast+
  have "getLongestChain_range_ok g (d # rest) best ?b'"
    unfolding getLongestChain_range_ok_def
  proof (intro conjI ballI allI impI)
    from r1 show "length best \<le> length ?b'" by (simp split: if_splits)
    from r2 ld show "?b' = best \<or> (\<exists>d' \<in> set (d # rest). longest g d' ?b')"
      by (auto split: if_splits)
    fix d' p assume d': "d' \<in> set (d # rest)" and p: "p \<noteq> [] \<and> hd p = d' \<and> successively (edge g) p"
    show "length p \<le> length ?b'"
    proof (cases "d' = d")
      case True
      with p ld have "length p \<le> length dc" by (simp add: longest_def)
      with r1 show ?thesis by (simp split: if_splits)
    next
      case False
      with d' have "d' \<in> set rest" by simp
      from r3[OF this] p show ?thesis by blast
    qed
  qed
  with mo show ?case unfolding getLongestChain_range_Cons[OF c] by simp
qed

text \<open>
  On an acyclic graph the top-level call returns a chain of successors that begins with
  the node and is at least as long as every chain of successors that begins with it.
\<close>

lemma getLongestChain_acyclic_longest:
  "acyclic (edges graph) \<Longrightarrow> longest graph node (fst (getLongestChain node graph [] []))"
  using getLongestChain_acyclic(1)[of graph "[]" "[]" node] by (simp add: memo_ok_def)

section \<open>What findAllPaths guarantees\<close>

lemma route_iff:
  "route g s t p \<longleftrightarrow> p \<noteq> [] \<and> hd p = s \<and> last p = t \<and> distinct p \<and> successively (edge g) p"
  by (simp add: route_def successively_nth edge_def)

lemma emitted_route: "emitted t g r v q \<Longrightarrow> route g (hd q) t q"
  by (simp add: route_iff emitted_def)

lemma diamond_paths:
  "snd (findAllPaths 0 ''A'' ''D'' diamond (all_of [''A'', ''B'', ''C'', ''D'']) [] [] [] 0)
     = [[''A'', ''B'', ''D''], [''A'', ''C'', ''D'']]"
  by code_simp

lemma diamond_paths_budget1:
  "snd (findAllPaths 0 ''A'' ''D'' diamond (all_of [''A'', ''B'', ''C'', ''D'']) [] [] [] 1)
     = [[''A'', ''B'', ''D'']]"
  by code_simp

lemma chain5_paths_depth4:
  "snd (findAllPaths 4 ''A'' ''E'' chain5 (all_of [''A'', ''B'', ''C'', ''D'', ''E'']) [] [] [] 0)
     = [[''A'', ''B'', ''C'', ''D'', ''E'']]"
  by code_simp

lemma chain5_paths_depth3:
  "snd (findAllPaths 3 ''A'' ''E'' chain5 (all_of [''A'', ''B'', ''C'', ''D'', ''E'']) [] [] [] 0) = []"
  by code_simp

lemma route_diamond_ABD: "route diamond ''A'' ''D'' [''A'', ''B'', ''D'']"
  by (simp add: route_iff edge_def diamond_def lookupL_def)

text \<open>
  C2. Every path that a top-level call of \<^const>\<open>findAllPaths\<close> (empty current path, empty
  visited map, empty output) leaves in the output is a route from the start node to the
  target: it starts at the start node, ends at the target, repeats no node, and each
  consecutive pair of its nodes is an edge of the graph. This holds for every graph,
  reachability map, depth limit and budget.
\<close>

theorem findAllPaths_simple_routes:
  "\<forall>p \<in> set (snd (findAllPaths whyMaxDepth start target graph reachable [] [] [] maxPaths)).
     route graph start target p"
proof
  fix p assume "p \<in> set (snd (findAllPaths whyMaxDepth start target graph reachable [] [] [] maxPaths))"
  with findAllPaths_sound(1)[of "[]" whyMaxDepth start target graph reachable "[]" "[]" maxPaths]
  have "\<exists>q. p = [] @ q \<and> hd q = start \<and> emitted target graph reachable [] q"
    by (rule appended_Nil)
  then have "hd p = start" and "emitted target graph reachable [] p" by auto
  then show "route graph start target p" using emitted_route by blast
qed

theorem findAllPaths_simple_routes_witness:
  "[''A'', ''B'', ''D''] \<in> set (snd (findAllPaths 0 ''A'' ''D'' diamond (all_of [''A'', ''B'', ''C'', ''D'']) [] [] [] 0))
   \<and> route diamond ''A'' ''D'' [''A'', ''B'', ''D'']
   \<and> hd [''A'', ''B'', ''D''] = ''A'' \<and> last [''A'', ''B'', ''D''] = ''D'' \<and> distinct [''A'', ''B'', ''D'']"
proof -
  have mem: "[''A'', ''B'', ''D''] \<in> set (snd (findAllPaths 0 ''A'' ''D'' diamond (all_of [''A'', ''B'', ''C'', ''D'']) [] [] [] 0))"
    by (simp add: diamond_paths)
  from findAllPaths_simple_routes[rule_format, OF mem]
  have r: "route diamond ''A'' ''D'' [''A'', ''B'', ''D'']" .
  then have "hd [''A'', ''B'', ''D''] = ''A'' \<and> last [''A'', ''B'', ''D''] = ''D'' \<and> distinct [''A'', ''B'', ''D'']"
    unfolding route_def by blast
  with mem r show ?thesis by blast
qed

text \<open>
  C5 (as the code has it). Called with an empty output and a positive budget
  \<open>maxPaths\<close>, \<^const>\<open>findAllPaths\<close> leaves at most \<open>maxPaths\<close> paths in the output. With a
  budget of zero or less nothing is cut off by the budget: every route from the start
  node to the target, all of whose nodes the supplied reachability map marks and which
  has at most \<open>whyMaxDepth\<close> edges when that limit is positive, is in the output. The
  restriction to marked nodes is the pruning test of the function; for the map computed
  for the target it excludes no route.
\<close>

theorem findAllPaths_budget_and_unlimited:
  "(0 < maxPaths \<longrightarrow>
      int (length (snd (findAllPaths whyMaxDepth start target graph reachable [] [] [] maxPaths))) \<le> maxPaths)
   \<and> (maxPaths \<le> 0 \<longrightarrow>
        (\<forall>p. route graph start target p \<and> (\<forall>x \<in> set p. lookupB reachable x)
              \<and> (0 < whyMaxDepth \<longrightarrow> int (length p) \<le> whyMaxDepth + 1)
           \<longrightarrow> p \<in> set (snd (findAllPaths whyMaxDepth start target graph reachable [] [] [] maxPaths))))"
proof (intro conjI impI allI)
  assume "0 < maxPaths"
  then show "int (length (snd (findAllPaths whyMaxDepth start target graph reachable [] [] [] maxPaths))) \<le> maxPaths"
    by (intro findAllPaths_budget(1)) simp_all
next
  fix p
  assume m: "maxPaths \<le> 0"
    and p: "route graph start target p \<and> (\<forall>x \<in> set p. lookupB reachable x)
              \<and> (0 < whyMaxDepth \<longrightarrow> int (length p) \<le> whyMaxDepth + 1)"
  then have "wanted whyMaxDepth target graph reachable [] [] p"
    by (simp add: wanted_def route_iff lookupB_Nil)
  moreover from p have "hd p = start" by (simp add: route_def)
  ultimately have "[] @ p \<in> set (snd (findAllPaths whyMaxDepth start target graph reachable [] [] [] maxPaths))"
    using m by (intro findAllPaths_complete(1))
  then show "p \<in> set (snd (findAllPaths whyMaxDepth start target graph reachable [] [] [] maxPaths))"
    by simp
qed

theorem findAllPaths_budget_and_unlimited_witness:
  "int (length (snd (findAllPaths 0 ''A'' ''D'' diamond (all_of [''A'', ''B'', ''C'', ''D'']) [] [] [] 1))) \<le> 1
   \<and> snd (findAllPaths 0 ''A'' ''D'' diamond (all_of [''A'', ''B'', ''C'', ''D'']) [] [] [] 1) = [[''A'', ''B'', ''D'']]
   \<and> route diamond ''A'' ''D'' [''A'', ''B'', ''D'']
   \<and> [''A'', ''B'', ''D''] \<in> set (snd (findAllPaths 0 ''A'' ''D'' diamond (all_of [''A'', ''B'', ''C'', ''D'']) [] [] [] 0))"
proof -
  have one: "(0::int) < 1" by simp
  have zero: "(0::int) \<le> 0" by simp
  have marked: "\<forall>x \<in> set [''A'', ''B'', ''D'']. lookupB (all_of [''A'', ''B'', ''C'', ''D'']) x"
    by (simp add: all_of_def lookupB_def)
  from findAllPaths_budget_and_unlimited[of 1 0 "''A''" "''D''" diamond "all_of [''A'', ''B'', ''C'', ''D'']"] one
  have "int (length (snd (findAllPaths 0 ''A'' ''D'' diamond (all_of [''A'', ''B'', ''C'', ''D'']) [] [] [] 1))) \<le> 1"
    by blast
  moreover
  from findAllPaths_budget_and_unlimited[of 0 0 "''A''" "''D''" diamond "all_of [''A'', ''B'', ''C'', ''D'']"]
    zero route_diamond_ABD marked
  have "[''A'', ''B'', ''D''] \<in> set (snd (findAllPaths 0 ''A'' ''D'' diamond (all_of [''A'', ''B'', ''C'', ''D'']) [] [] [] 0))"
    by blast
  ultimately show ?thesis using diamond_paths_budget1 route_diamond_ABD by blast
qed

text \<open>
  The claim as it was written fails for a reachability map that does not mark the nodes
  of a route: with the single edge \<open>A \<rightarrow> B\<close>, an empty reachability map and no budget
  and no depth limit, the route \<open>[A, B]\<close> exists and the output stays empty.
\<close>

theorem findAllPaths_unlimited_counterexample:
  "route [(''A'', [''B''])] ''A'' ''B'' [''A'', ''B'']
   \<and> snd (findAllPaths 0 ''A'' ''B'' [(''A'', [''B''])] [] [] [] [] 0) = []
   \<and> [''A'', ''B''] \<notin> set (snd (findAllPaths 0 ''A'' ''B'' [(''A'', [''B''])] [] [] [] [] 0))"
proof -
  have "snd (findAllPaths 0 ''A'' ''B'' [(''A'', [''B''])] [] [] [] [] 0) = []"
    by code_simp
  moreover have "route [(''A'', [''B''])] ''A'' ''B'' [''A'', ''B'']"
    by (simp add: route_iff edge_def lookupL_def)
  ultimately show ?thesis by simp
qed

text \<open>
  C6. With a positive depth limit \<open>whyMaxDepth\<close>, every path a top-level call of
  \<^const>\<open>findAllPaths\<close> appends to the output has at most \<open>whyMaxDepth\<close> edges, that is at
  most \<open>whyMaxDepth + 1\<close> nodes, whatever the graph, the reachability map, the visited
  map, the output so far and the budget.
\<close>

theorem findAllPaths_depth_limit:
  "0 < whyMaxDepth \<Longrightarrow>
   \<exists>new. snd (findAllPaths whyMaxDepth start target graph reachable [] visited out maxPaths) = out @ new
     \<and> (\<forall>p \<in> set new. int (length p) \<le> whyMaxDepth + 1 \<and> int (length p) - 1 \<le> whyMaxDepth)"
proof -
  assume "0 < whyMaxDepth"
  then have "appended out (snd (findAllPaths whyMaxDepth start target graph reachable [] visited out maxPaths))
                (\<lambda>p. int (length p) \<le> whyMaxDepth + 1)"
    by (intro findAllPaths_depth(1)) simp_all
  then have "appended out (snd (findAllPaths whyMaxDepth start target graph reachable [] visited out maxPaths))
                (\<lambda>p. int (length p) \<le> whyMaxDepth + 1 \<and> int (length p) - 1 \<le> whyMaxDepth)"
    by (rule appended_mono) simp
  then show ?thesis unfolding appended_def .
qed

theorem findAllPaths_depth_limit_witness:
  "snd (findAllPaths 4 ''A'' ''E'' chain5 (all_of [''A'', ''B'', ''C'', ''D'', ''E'']) [] [] [] 0)
      = [[''A'', ''B'', ''C'', ''D'', ''E'']]
   \<and> int (length [''A'', ''B'', ''C'', ''D'', ''E'']) - 1 \<le> 4
   \<and> snd (findAllPaths 3 ''A'' ''E'' chain5 (all_of [''A'', ''B'', ''C'', ''D'', ''E'']) [] [] [] 0) = []"
proof -
  have "(0::int) < 4" by simp
  from findAllPaths_depth_limit[OF this, of "''A''" "''E''" chain5 "all_of [''A'', ''B'', ''C'', ''D'', ''E'']" "[]" "[]" 0]
  obtain new where
    "snd (findAllPaths 4 ''A'' ''E'' chain5 (all_of [''A'', ''B'', ''C'', ''D'', ''E'']) [] [] [] 0) = [] @ new"
    "\<forall>p \<in> set new. int (length p) \<le> 4 + 1 \<and> int (length p) - 1 \<le> 4"
    by blast
  then have "int (length [''A'', ''B'', ''C'', ''D'', ''E'']) - 1 \<le> 4"
    unfolding chain5_paths_depth4 by simp
  then show ?thesis using chain5_paths_depth4 chain5_paths_depth3 by blast
qed

text \<open>
  C8. When the reachability map marks the target, every node of every path that a
  top-level call of \<^const>\<open>findAllPaths\<close> appends to the output is marked in the
  reachability map.
\<close>

theorem findAllPaths_within_reachable:
  "lookupB reachable target \<Longrightarrow>
   \<exists>new. snd (findAllPaths whyMaxDepth start target graph reachable [] visited out maxPaths) = out @ new
     \<and> (\<forall>p \<in> set new. \<forall>x \<in> set p. lookupB reachable x)"
proof -
  assume t: "lookupB reachable target"
  have "appended out (snd (findAllPaths whyMaxDepth start target graph reachable [] visited out maxPaths))
          (\<lambda>p. \<exists>q. p = [] @ q \<and> hd q = start \<and> emitted target graph reachable visited q)"
    by (rule findAllPaths_sound(1))
  then have "appended out (snd (findAllPaths whyMaxDepth start target graph reachable [] visited out maxPaths))
          (\<lambda>p. \<forall>x \<in> set p. lookupB reachable x)"
  proof (rule appended_mono)
    fix p assume "\<exists>q. p = [] @ q \<and> hd q = start \<and> emitted target graph reachable visited q"
    then have e: "emitted target graph reachable visited p" by simp
    then have "p \<noteq> []" by (simp add: emitted_def)
    then obtain ys y where p: "p = ys @ [y]" by (cases p rule: rev_cases) auto
    with e t show "\<forall>x \<in> set p. lookupB reachable x" by (auto simp: emitted_def)
  qed
  then show ?thesis unfolding appended_def .
qed

theorem findAllPaths_within_reachable_witness:
  "lookupB (all_of [''A'', ''B'', ''C'', ''D'']) ''D''
   \<and> snd (findAllPaths 0 ''A'' ''D'' diamond (all_of [''A'', ''B'', ''C'', ''D'']) [] [] [] 0)
       = [[''A'', ''B'', ''D''], [''A'', ''C'', ''D'']]
   \<and> lookupB (all_of [''A'', ''B'', ''C'', ''D'']) ''A''
   \<and> lookupB (all_of [''A'', ''B'', ''C'', ''D'']) ''B''
   \<and> lookupB (all_of [''A'', ''B'', ''C'', ''D'']) ''C''"
proof -
  have t: "lookupB (all_of [''A'', ''B'', ''C'', ''D'']) ''D''"
    by (simp add: all_of_def lookupB_def)
  from findAllPaths_within_reachable[OF t, of 0 "''A''" diamond "[]" "[]" 0]
  obtain new where
    "snd (findAllPaths 0 ''A'' ''D'' diamond (all_of [''A'', ''B'', ''C'', ''D'']) [] [] [] 0) = [] @ new"
    "\<forall>p \<in> set new. \<forall>x \<in> set p. lookupB (all_of [''A'', ''B'', ''C'', ''D'']) x"
    by blast
  then have "\<forall>p \<in> set [[''A'', ''B'', ''D''], [''A'', ''C'', ''D'']].
               \<forall>x \<in> set p. lookupB (all_of [''A'', ''B'', ''C'', ''D'']) x"
    unfolding diamond_paths by simp
  then have "lookupB (all_of [''A'', ''B'', ''C'', ''D'']) ''A''
     \<and> lookupB (all_of [''A'', ''B'', ''C'', ''D'']) ''B''
     \<and> lookupB (all_of [''A'', ''B'', ''C'', ''D'']) ''C''"
    by simp
  with t diamond_paths show ?thesis by blast
qed

text \<open>
  C10. A call of \<^const>\<open>findAllPaths\<close> whose start node is the target appends exactly one
  path, the current path extended by the target, and returns; with the empty current path
  of a top-level call this is the single-node path \<open>[target]\<close>. Nothing is assumed about
  the budget, the depth limit, the visited map or the reachability map, because the
  equality test is the first statement of the function: the result is the same when the
  budget is used up, the depth limit is reached or the target is missing from the
  reachability map.
\<close>

theorem findAllPaths_start_is_target:
  "findAllPaths whyMaxDepth target target graph reachable currentPath visited out maxPaths
     = (visited, out @ [currentPath @ [target]])
   \<and> findAllPaths whyMaxDepth target target graph reachable [] visited out maxPaths
     = (visited, out @ [[target]])"
  by (simp add: findAllPaths.simps)

section \<open>What computeReachableToTarget guarantees\<close>

lemma dead_end_reach:
  "computeReachableToTarget ''D'' dead_end = [(''D'', True), (''B'', True), (''A'', True)]"
  by code_simp

lemma dead_end_reach_absent:
  "computeReachableToTarget ''Q'' dead_end = [(''Q'', True)]"
  by code_simp

lemma no_edge_into_target:
  assumes "\<forall>(k, succs) \<in> set g. target \<notin> set succs" "(x, target) \<in> (edges g)\<^sup>*"
  shows "x = target"
  using assms(2)
proof (cases rule: rtranclE)
  case base
  then show ?thesis by simp
next
  case (step y)
  then have "target \<in> set (lookupL g y)" by (simp add: edges_def edge_def)
  then obtain succs where "map_of g y = Some succs" "target \<in> set succs"
    by (cases "map_of g y") (auto simp: lookupL_def)
  then have "(y, succs) \<in> set g" using map_of_SomeD by fast
  with assms(1) \<open>target \<in> set succs\<close> show ?thesis by auto
qed

text \<open>
  C1. For a graph whose keys are distinct (as the keys of a Go map are) and any target,
  a node reads as true in the map returned by \<^const>\<open>computeReachableToTarget\<close> exactly
  when there is a directed path of zero or more edges from it to the target. The target
  itself is always a member, and when the target occurs nowhere in the graph, neither as
  a key nor as a successor, the returned set is the singleton of the target.
\<close>

theorem computeReachableToTarget_correct:
  "distinct (map fst graph) \<Longrightarrow>
     (\<forall>x. lookupB (computeReachableToTarget target graph) x \<longleftrightarrow> (x, target) \<in> (edges graph)\<^sup>*)
     \<and> lookupB (computeReachableToTarget target graph) target
     \<and> ((\<forall>(k, succs) \<in> set graph. k \<noteq> target \<and> target \<notin> set succs)
          \<longrightarrow> members (computeReachableToTarget target graph) = {target})"
proof -
  assume d: "distinct (map fst graph)"
  note m = computeReachableToTarget_members[OF d, of target]
  from m have iff: "\<forall>x. lookupB (computeReachableToTarget target graph) x \<longleftrightarrow> (x, target) \<in> (edges graph)\<^sup>*"
    by (auto simp: members_def)
  then have t: "lookupB (computeReachableToTarget target graph) target" by simp
  have "members (computeReachableToTarget target graph) = {target}"
    if "\<forall>(k, succs) \<in> set graph. k \<noteq> target \<and> target \<notin> set succs"
  proof -
    from that have "\<forall>(k, succs) \<in> set graph. target \<notin> set succs" by auto
    then have "\<And>x. (x, target) \<in> (edges graph)\<^sup>* \<Longrightarrow> x = target"
      by (rule no_edge_into_target)
    with m show ?thesis by auto
  qed
  with iff t show ?thesis by blast
qed

theorem computeReachableToTarget_correct_witness:
  "distinct (map fst dead_end)
   \<and> computeReachableToTarget ''D'' dead_end = [(''D'', True), (''B'', True), (''A'', True)]
   \<and> (''A'', ''D'') \<in> (edges dead_end)\<^sup>*
   \<and> (''C'', ''D'') \<notin> (edges dead_end)\<^sup>*
   \<and> members (computeReachableToTarget ''Q'' dead_end) = {''Q''}"
proof -
  have d: "distinct (map fst dead_end)" by (simp add: dead_end_def)
  have q: "\<forall>(k, succs) \<in> set dead_end. k \<noteq> ''Q'' \<and> ''Q'' \<notin> set succs"
    by (simp add: dead_end_def)
  from computeReachableToTarget_correct[OF d, of "''D''"]
  have iff: "\<And>x. lookupB (computeReachableToTarget ''D'' dead_end) x \<longleftrightarrow> (x, ''D'') \<in> (edges dead_end)\<^sup>*"
    by blast
  have "(''A'', ''D'') \<in> (edges dead_end)\<^sup>*"
    using iff[of "''A''"] unfolding dead_end_reach by (simp add: lookupB_def)
  moreover have "(''C'', ''D'') \<notin> (edges dead_end)\<^sup>*"
    using iff[of "''C''"] unfolding dead_end_reach by (simp add: lookupB_def)
  moreover from computeReachableToTarget_correct[OF d, of "''Q''"] q
  have "members (computeReachableToTarget ''Q'' dead_end) = {''Q''}" by blast
  ultimately show ?thesis using d dead_end_reach by blast
qed

section \<open>Termination, degenerate inputs, and the longest chain on cyclic graphs\<close>

lemma successively_edge_rtrancl:
  "successively (edge g) q \<Longrightarrow> q \<noteq> [] \<Longrightarrow> (hd q, last q) \<in> (edges g)\<^sup>*"
proof (induction q)
  case Nil
  then show ?case by simp
next
  case (Cons a q)
  show ?case
  proof (cases q)
    case Nil
    then show ?thesis by simp
  next
    case (Cons b q')
    with Cons.prems have "(a, hd q) \<in> edges g" "successively (edge g) q"
      by (simp_all add: edges_def)
    moreover from Cons.IH[OF this(2)] Cons have "(hd q, last q) \<in> (edges g)\<^sup>*" by simp
    ultimately show ?thesis using Cons by (simp add: converse_rtrancl_into_rtrancl)
  qed
qed

lemma findAllPaths_no_route:
  assumes "(start, target) \<notin> (edges graph)\<^sup>*"
  shows "snd (findAllPaths d start target graph reachable [] visited out m) = out"
proof -
  have "appended out (snd (findAllPaths d start target graph reachable [] visited out m))
          (\<lambda>p. \<exists>q. p = [] @ q \<and> hd q = start \<and> emitted target graph reachable visited q)"
    by (rule findAllPaths_sound(1))
  then have "appended out (snd (findAllPaths d start target graph reachable [] visited out m)) (\<lambda>p. False)"
  proof (rule appended_mono)
    fix p assume "\<exists>q. p = [] @ q \<and> hd q = start \<and> emitted target graph reachable visited q"
    then have "hd p = start" "p \<noteq> []" "last p = target" "successively (edge graph) p"
      by (auto simp: emitted_def)
    with successively_edge_rtrancl[of graph p] assms show False by simp
  qed
  then obtain new where "snd (findAllPaths d start target graph reachable [] visited out m) = out @ new"
    "\<forall>p \<in> set new. False" unfolding appended_def by blast
  then show ?thesis by (cases new) auto
qed

lemma edges_Nil: "edges [] = {}"
  by (simp add: edges_def edge_def lookupL_def)

lemma getLongestChain_leaf:
  "lookupL graph node = [] \<Longrightarrow> fst (getLongestChain node graph [] []) = [node]"
  by (simp add: getLongestChain.simps)

lemma getLongestChain_top:
  "fst (getLongestChain node graph [] []) \<noteq> [] \<and> hd (fst (getLongestChain node graph [] [])) = node"
  by (simp add: getLongestChain.simps split: prod.splits)

text \<open>
  C9 (as the code has it). On every graph, cyclic or not, every call of
  \<^const>\<open>findAllPaths\<close> and of \<^const>\<open>getLongestChain\<close> terminates: the relation of
  recursive calls is well-founded below it, which is what the domain predicates say (for \<^const>\<open>findAllPaths\<close> because a node is marked in the
  visited map while the search is below it, for \<^const>\<open>getLongestChain\<close> because a node
  with successors is not entered again while it is in the chain of ancestors). Neither
  function has an error result. A top-level call of \<^const>\<open>findAllPaths\<close> appends nothing
  when there is no path from the start node to the target, in particular when the target
  has no incoming edge or the graph is empty and the start node is not the target.
  A top-level call of \<^const>\<open>getLongestChain\<close> never returns the empty chain: it returns a
  chain that begins with the node, and the one-node chain when the node has no
  successors or the graph is empty.
\<close>

theorem traversals_terminate_without_error:
  "findAllPaths_findAllPaths_range_dom
      (Inl (whyMaxDepth, start, target, graph, reachable, currentPath, visited, out, maxPaths))
   \<and> getLongestChain_getLongestChain_range_dom (Inl (node, graph, currentChain, longestChains))
   \<and> ((start, target) \<notin> (edges graph)\<^sup>* \<longrightarrow>
        snd (findAllPaths whyMaxDepth start target graph reachable [] visited out maxPaths) = out)
   \<and> (start \<noteq> target \<and> (\<forall>(k, succs) \<in> set graph. target \<notin> set succs) \<longrightarrow>
        snd (findAllPaths whyMaxDepth start target graph reachable [] visited out maxPaths) = out)
   \<and> (start \<noteq> target \<longrightarrow>
        snd (findAllPaths whyMaxDepth start target [] reachable [] visited out maxPaths) = out)
   \<and> fst (getLongestChain node graph [] []) \<noteq> []
   \<and> hd (fst (getLongestChain node graph [] [])) = node
   \<and> (lookupL graph node = [] \<longrightarrow> fst (getLongestChain node graph [] []) = [node])
   \<and> fst (getLongestChain node [] [] []) = [node]"
proof -
  have "findAllPaths_findAllPaths_range_dom
      (Inl (whyMaxDepth, start, target, graph, reachable, currentPath, visited, out, maxPaths))"
    by (rule findAllPaths_in_domain(1))
  moreover have "getLongestChain_getLongestChain_range_dom (Inl (node, graph, currentChain, longestChains))"
    by (rule getLongestChain_in_domain(1))
  moreover have "snd (findAllPaths whyMaxDepth start target graph reachable [] visited out maxPaths) = out"
    if "start \<noteq> target \<and> (\<forall>(k, succs) \<in> set graph. target \<notin> set succs)"
  proof (rule findAllPaths_no_route)
    from that have "\<forall>(k, succs) \<in> set graph. target \<notin> set succs" by blast
    from no_edge_into_target[OF this] that show "(start, target) \<notin> (edges graph)\<^sup>*" by blast
  qed
  moreover have "snd (findAllPaths whyMaxDepth start target [] reachable [] visited out maxPaths) = out"
    if "start \<noteq> target"
    using that by (intro findAllPaths_no_route) (simp add: edges_Nil)
  moreover have "fst (getLongestChain node [] [] []) = [node]"
    by (rule getLongestChain_leaf) (simp add: lookupL_Nil)
  ultimately show ?thesis
    using findAllPaths_no_route getLongestChain_top getLongestChain_leaf by blast
qed

lemma dead_end_no_route: "(''C'', ''D'') \<notin> (edges dead_end)\<^sup>*"
proof -
  have "distinct (map fst dead_end)" by (simp add: dead_end_def)
  from computeReachableToTarget_members[OF this, of "''D''"]
  have "(''C'', ''D'') \<in> (edges dead_end)\<^sup>* \<longleftrightarrow> ''C'' \<in> members (computeReachableToTarget ''D'' dead_end)"
    by simp
  then show ?thesis unfolding dead_end_reach by (simp add: members_def lookupB_def)
qed

theorem traversals_terminate_without_error_witness:
  "(''C'', ''D'') \<notin> (edges dead_end)\<^sup>*
   \<and> snd (findAllPaths 0 ''C'' ''D'' dead_end (all_of [''A'', ''B'', ''C'', ''D'', ''E'']) [] [] [] 0) = []
   \<and> ''A'' \<noteq> ''Q''
   \<and> snd (findAllPaths 0 ''A'' ''Q'' dead_end (all_of [''A'', ''B'', ''C'', ''D'', ''E'']) [] [] [] 0) = []
   \<and> snd (findAllPaths 0 ''A'' ''Q'' [] [] [] [] [] 0) = []
   \<and> lookupL dead_end ''E'' = []
   \<and> fst (getLongestChain ''E'' dead_end [] []) = [''E'']
   \<and> fst (getLongestChain ''A'' dead_end [] []) = [''A'', ''B'', ''D'']"
proof -
  have ne: "''A'' \<noteq> ''Q''" by simp
  have q: "\<forall>(k, succs) \<in> set dead_end. ''Q'' \<notin> set succs" by (simp add: dead_end_def)
  have e: "lookupL dead_end ''E'' = []" by (simp add: dead_end_def lookupL_def)
  note t1 = traversals_terminate_without_error[of 0 "''C''" "''D''" dead_end
      "all_of [''A'', ''B'', ''C'', ''D'', ''E'']" "[]" "[]" "[]" 0 "''E''" "[]" "[]"]
  note t2 = traversals_terminate_without_error[of 0 "''A''" "''Q''" dead_end
      "all_of [''A'', ''B'', ''C'', ''D'', ''E'']" "[]" "[]" "[]" 0 "''E''" "[]" "[]"]
  note t3 = traversals_terminate_without_error[of 0 "''A''" "''Q''" "[]" "[]" "[]" "[]" "[]" 0 "''E''" "[]" "[]"]
  from t1 dead_end_no_route
  have "snd (findAllPaths 0 ''C'' ''D'' dead_end (all_of [''A'', ''B'', ''C'', ''D'', ''E'']) [] [] [] 0) = []"
    by blast
  moreover from t2 ne q
  have "snd (findAllPaths 0 ''A'' ''Q'' dead_end (all_of [''A'', ''B'', ''C'', ''D'', ''E'']) [] [] [] 0) = []"
    by blast
  moreover from t3 ne have "snd (findAllPaths 0 ''A'' ''Q'' [] [] [] [] [] 0) = []" by blast
  moreover from t1 e have "fst (getLongestChain ''E'' dead_end [] []) = [''E'']" by blast
  moreover have "fst (getLongestChain ''A'' dead_end [] []) = [''A'', ''B'', ''D'']" by code_simp
  ultimately show ?thesis using dead_end_no_route ne e by blast
qed

text \<open>
  The claim as it was written promises an empty or zero result from both functions. On
  the empty graph \<^const>\<open>getLongestChain\<close> returns the chain \<open>[A]\<close> of length one, and
  \<^const>\<open>findAllPaths\<close> from a node to itself returns the one-node path.
\<close>

theorem traversals_empty_result_counterexample:
  "fst (getLongestChain ''A'' [] [] []) = [''A'']
   \<and> fst (getLongestChain ''A'' [] [] []) \<noteq> []
   \<and> length (fst (getLongestChain ''A'' [] [] [])) = 1
   \<and> snd (findAllPaths 0 ''A'' ''A'' [] [] [] [] [] 0) = [[''A'']]"
proof -
  have "fst (getLongestChain ''A'' [] [] []) = [''A'']" by code_simp
  moreover have "snd (findAllPaths 0 ''A'' ''A'' [] [] [] [] [] 0) = [[''A'']]" by code_simp
  ultimately show ?thesis by simp
qed

text \<open>
  C3. On an acyclic graph \<^const>\<open>getLongestChain\<close> returns a longest chain of successors
  (lemma \<open>getLongestChain_acyclic_longest\<close>). On a graph with a cycle the chain it returns
  need not be the longest acyclic chain of successors. In the graph \<open>A \<rightarrow> Y, A \<rightarrow> X, Y \<rightarrow> X, Y \<rightarrow> Z,
  X \<rightarrow> Y\<close> the call for \<open>A\<close> first descends \<open>A, Y, X\<close>; below \<open>X\<close> the only successor \<open>Y\<close>
  is an ancestor, so \<open>X\<close> is memoised with the chain \<open>[X]\<close>, and that entry is reused
  when \<open>X\<close> is reached directly from \<open>A\<close>. The result is \<open>[A, Y, X]\<close> of length three,
  while \<open>[A, X, Y, Z]\<close> is a chain of successors without a repeated node of length four.
\<close>

theorem getLongestChain_cyclic_not_longest:
  "fst (getLongestChain ''A'' cyclic4 [] []) = [''A'', ''Y'', ''X'']
   \<and> successively (edge cyclic4) [''A'', ''X'', ''Y'', ''Z'']
   \<and> distinct [''A'', ''X'', ''Y'', ''Z'']
   \<and> length (fst (getLongestChain ''A'' cyclic4 [] [])) < length [''A'', ''X'', ''Y'', ''Z'']"
proof -
  have "fst (getLongestChain ''A'' cyclic4 [] []) = [''A'', ''Y'', ''X'']" by code_simp
  moreover have "successively (edge cyclic4) [''A'', ''X'', ''Y'', ''Z'']"
    by (simp add: edge_def cyclic4_def lookupL_def)
  ultimately show ?thesis by simp
qed

section \<open>What computePathSubgraph guarantees\<close>

text \<open>
  C4. For every graph, list of start nodes and reachability map (in particular the map
  computed for a target), the edges \<^const>\<open>computePathSubgraph\<close> returns contain no cycle:
  no node has a directed path of one or more returned edges back to itself. The node
  set it returns is exactly the set of nodes that can be reached from some start node
  by a path on which every node, the start node included, is marked in the reachability
  map.
\<close>

theorem computePathSubgraph_acyclic_and_nodes:
  "acyclic (recorded (snd (computePathSubgraph mainModules graph reachable)))
   \<and> members (fst (computePathSubgraph mainModules graph reachable))
       = {x. \<exists>m \<in> set mainModules. lookupB reachable m \<and> (m, x) \<in> (within graph reachable)\<^sup>*}"
  using computePathSubgraph_dfs(1)[of mainModules graph reachable]
    computePathSubgraph_nodes[of mainModules graph reachable] by simp

theorem computePathSubgraph_acyclic_and_nodes_witness:
  "computePathSubgraph [''A''] cycle_graph (computeReachableToTarget ''D'' cycle_graph) =
     ([(''A'', True), (''B'', True), (''C'', True), (''D'', True)],
      [(\<lparr>From = ''A'', To = ''B''\<rparr>, True), (\<lparr>From = ''B'', To = ''C''\<rparr>, True),
       (\<lparr>From = ''C'', To = ''D''\<rparr>, True)])
   \<and> acyclic (recorded [(\<lparr>From = ''A'', To = ''B''\<rparr>, True), (\<lparr>From = ''B'', To = ''C''\<rparr>, True),
       (\<lparr>From = ''C'', To = ''D''\<rparr>, True)])
   \<and> (''C'', ''A'') \<in> edges cycle_graph
   \<and> (''C'', ''A'') \<notin> recorded [(\<lparr>From = ''A'', To = ''B''\<rparr>, True), (\<lparr>From = ''B'', To = ''C''\<rparr>, True),
       (\<lparr>From = ''C'', To = ''D''\<rparr>, True)]"
proof -
  from computePathSubgraph_acyclic_and_nodes[of "[''A'']" cycle_graph "computeReachableToTarget ''D'' cycle_graph"]
  have "acyclic (recorded [(\<lparr>From = ''A'', To = ''B''\<rparr>, True), (\<lparr>From = ''B'', To = ''C''\<rparr>, True),
       (\<lparr>From = ''C'', To = ''D''\<rparr>, True)])"
    unfolding cycle_subgraph by simp
  moreover have "(''C'', ''A'') \<in> edges cycle_graph"
    by (simp add: edges_def edge_def cycle_graph_def lookupL_def)
  moreover have "(''C'', ''A'') \<notin> recorded [(\<lparr>From = ''A'', To = ''B''\<rparr>, True), (\<lparr>From = ''B'', To = ''C''\<rparr>, True),
       (\<lparr>From = ''C'', To = ''D''\<rparr>, True)]"
    by (simp add: recorded_def lookupB_def)
  ultimately show ?thesis using cycle_subgraph by blast
qed

text \<open>
  C7. For a graph with distinct keys, any list of start nodes and the reachability map
  computed for a target: every node of the returned node set is a start node, or the
  target, or an endpoint of a recorded edge whose other endpoint is in the returned node
  set as well; and both endpoints of every recorded edge are in the returned node set.
\<close>

theorem computePathSubgraph_nodes_and_edges:
  "distinct (map fst graph) \<Longrightarrow>
     (\<forall>n \<in> members (fst (computePathSubgraph mainModules graph (computeReachableToTarget target graph))).
        n \<in> set mainModules \<or> n = target \<or>
        (\<exists>m \<in> members (fst (computePathSubgraph mainModules graph (computeReachableToTarget target graph))).
           (n, m) \<in> recorded (snd (computePathSubgraph mainModules graph (computeReachableToTarget target graph)))
         \<or> (m, n) \<in> recorded (snd (computePathSubgraph mainModules graph (computeReachableToTarget target graph)))))
   \<and> (\<forall>(a, b) \<in> recorded (snd (computePathSubgraph mainModules graph (computeReachableToTarget target graph))).
        a \<in> members (fst (computePathSubgraph mainModules graph (computeReachableToTarget target graph)))
      \<and> b \<in> members (fst (computePathSubgraph mainModules graph (computeReachableToTarget target graph))))"
proof -
  assume d: "distinct (map fst graph)"
  let ?r = "computeReachableToTarget target graph"
  let ?ns = "forward_set mainModules graph ?r"
  let ?es = "snd (computePathSubgraph mainModules graph ?r)"
  let ?adj = "adj_nodes (sort (map fst ?ns)) graph ?ns []"
  have fst: "fst (computePathSubgraph mainModules graph ?r) = ?ns"
    by (simp add: computePathSubgraph_unfold)
  note ends = computePathSubgraph_dfs(2)[of _ _ mainModules graph ?r]
  have part2: "\<forall>(a, b) \<in> recorded ?es. a \<in> members ?ns \<and> b \<in> members ?ns"
    using ends by blast
  have part1: "n \<in> set mainModules \<or> n = target \<or>
        (\<exists>m \<in> members ?ns. (n, m) \<in> recorded ?es \<or> (m, n) \<in> recorded ?es)"
    if n: "n \<in> members ?ns" for n
  proof (cases "n = target")
    case True
    then show ?thesis by simp
  next
    case False
    from computePathSubgraph_dfs(3)[OF n] have "covered ?adj ?es n" .
    then consider p where "(p, n) \<in> recorded ?es"
      | "\<forall>s \<in> set (lookupL ?adj n). s \<noteq> n \<longrightarrow> (n, s) \<in> recorded ?es"
      unfolding covered_def by blast
    then have "\<exists>m \<in> members ?ns. (n, m) \<in> recorded ?es \<or> (m, n) \<in> recorded ?es"
    proof cases
      case 1
      with ends[OF 1] show ?thesis by blast
    next
      case 2
      from n forward_set_spec(4)[of mainModules graph ?r] have "n \<in> members ?r" by blast
      then have "(n, target) \<in> (edges graph)\<^sup>*"
        using computeReachableToTarget_members[OF d, of target] by simp
      from first_step_away[OF this False] obtain s where
        s: "(n, s) \<in> edges graph" "s \<noteq> n" "(s, target) \<in> (edges graph)\<^sup>*" by blast
      from s(3) have "lookupB ?r s"
        using computeReachableToTarget_members[OF d, of target] by (auto simp: members_def)
      moreover from s(1) have e: "edge graph n s" by (simp add: edges_def)
      ultimately have sm: "s \<in> members ?ns"
        using forward_set_spec(3)[of mainModules graph ?r] n by (auto simp: edge_def)
      from computePathSubgraph_dfs(4)[OF n sm e] have "s \<in> set (lookupL ?adj n)" .
      with 2 s(2) have "(n, s) \<in> recorded ?es" by blast
      with sm show ?thesis by blast
    qed
    then show ?thesis by blast
  qed
  from part1 part2 show ?thesis unfolding fst by blast
qed

theorem computePathSubgraph_nodes_and_edges_witness:
  "distinct (map fst cycle_graph)
   \<and> computePathSubgraph [''A''] cycle_graph (computeReachableToTarget ''D'' cycle_graph) =
     ([(''A'', True), (''B'', True), (''C'', True), (''D'', True)],
      [(\<lparr>From = ''A'', To = ''B''\<rparr>, True), (\<lparr>From = ''B'', To = ''C''\<rparr>, True),
       (\<lparr>From = ''C'', To = ''D''\<rparr>, True)])
   \<and> ''B'' \<in> members (fst (computePathSubgraph [''A''] cycle_graph (computeReachableToTarget ''D'' cycle_graph)))
   \<and> ''B'' \<notin> set [''A''] \<and> ''B'' \<noteq> ''D''
   \<and> (\<exists>m. m \<in> members (fst (computePathSubgraph [''A''] cycle_graph (computeReachableToTarget ''D'' cycle_graph)))
        \<and> ((''B'', m) \<in> recorded (snd (computePathSubgraph [''A''] cycle_graph (computeReachableToTarget ''D'' cycle_graph)))
          \<or> (m, ''B'') \<in> recorded (snd (computePathSubgraph [''A''] cycle_graph (computeReachableToTarget ''D'' cycle_graph)))))
   \<and> (''A'', ''B'') \<in> recorded (snd (computePathSubgraph [''A''] cycle_graph (computeReachableToTarget ''D'' cycle_graph)))
   \<and> ''A'' \<in> members (fst (computePathSubgraph [''A''] cycle_graph (computeReachableToTarget ''D'' cycle_graph)))"
proof -
  have d: "distinct (map fst cycle_graph)" by (simp add: cycle_graph_def)
  have b: "''B'' \<in> members (fst (computePathSubgraph [''A''] cycle_graph (computeReachableToTarget ''D'' cycle_graph)))"
    unfolding cycle_subgraph by (simp add: members_def lookupB_def)
  have ab: "(''A'', ''B'') \<in> recorded (snd (computePathSubgraph [''A''] cycle_graph (computeReachableToTarget ''D'' cycle_graph)))"
    unfolding cycle_subgraph by (simp add: recorded_def lookupB_def)
  have nb: "''B'' \<notin> set [''A'']" "''B'' \<noteq> ''D''" by simp_all
  note t = computePathSubgraph_nodes_and_edges[OF d, of "[''A'']" "''D''"]
  from t b nb have "\<exists>m. m \<in> members (fst (computePathSubgraph [''A''] cycle_graph (computeReachableToTarget ''D'' cycle_graph)))
        \<and> ((''B'', m) \<in> recorded (snd (computePathSubgraph [''A''] cycle_graph (computeReachableToTarget ''D'' cycle_graph)))
          \<or> (m, ''B'') \<in> recorded (snd (computePathSubgraph [''A''] cycle_graph (computeReachableToTarget ''D'' cycle_graph))))"
    by blast
  moreover from t ab
  have "''A'' \<in> members (fst (computePathSubgraph [''A''] cycle_graph (computeReachableToTarget ''D'' cycle_graph)))"
    by blast
  ultimately show ?thesis using d cycle_subgraph b nb ab by blast
qed

end
